theory Spec2Isabelle
  imports Main "HOL-Library.Word"
begin

section \<open>Data model of package matrix\<close>

text \<open>
  Go's \<^verbatim>\<open>int\<close> is a 64-bit two's complement integer on 64-bit platforms; \<^verbatim>\<open>+\<close> and
  \<^verbatim>\<open>*\<close> on matrix entries wrap around, so an entry is a \<open>64 word\<close>. Row and column
  counts and the exponent are \<open>int\<close>: they are compared and used as lengths, and
  the one product the code forms of them, the channel size in \<^verbatim>\<open>Multiply\<close>, is taken
  with the wrap-around written out (\<open>go_mul\<close>). Indices produced by \<^verbatim>\<open>range\<close> are never
  negative, so they are \<open>nat\<close>.
\<close>

type_synonym go_int = "64 word"

definition go_mul :: "int \<Rightarrow> int \<Rightarrow> int" where
  "go_mul a b = (a * b + 2 ^ 63) mod 2 ^ 64 - 2 ^ 63"

record Element =
  RowIndex :: nat
  ColIndex :: nat
  Value :: go_int

record Matrix =
  Rows :: int
  Columns :: int
  Entries :: "go_int list list"

text \<open>
  The four errors the package creates with \<^verbatim>\<open>errors.New\<close>, named as the specification
  names them, and the three failures of the Go runtime the code can run into: an index
  out of range, a negative size given to \<^verbatim>\<open>make\<close> for a channel, and the runtime's
  report that every goroutine is blocked.
\<close>

datatype error =
  DimensionError
  | ShapeMismatchError
  | IncompatibleDimensionsError
  | InvalidPowerError
  | IndexOutOfRange
  | ChanSizeOutOfRange
  | Deadlock

subsection \<open>NewMatrix\<close>

text \<open>
  \<^verbatim>\<open>func NewMatrix(rows int, columns int, entries ...[][]int) (Matrix, error)\<close>.
  The variadic parameter is the list of the grids passed; only the first is read.
  The second comparison of \<^verbatim>\<open>len(entries[0]) != rows || len(entries[0][0]) != columns\<close>
  is evaluated only when the first is false, and reads the first inner row only; since
  \<^verbatim>\<open>rows\<close> is positive there, that row exists.
\<close>

definition NewMatrix :: "int \<Rightarrow> int \<Rightarrow> go_int list list list \<Rightarrow> error + Matrix" where
  "NewMatrix rows columns entries =
     (if rows \<le> 0 \<or> columns \<le> 0 then Inl DimensionError
      else case entries of
        [] \<Rightarrow> Inr \<lparr>Rows = rows, Columns = columns,
                  Entries = replicate (nat rows) (replicate (nat columns) 0)\<rparr>
      | grid # _ \<Rightarrow>
          if int (length grid) \<noteq> rows then Inl ShapeMismatchError
          else (case grid of
                  [] \<Rightarrow> Inl IndexOutOfRange
                | r # _ \<Rightarrow>
                    if int (length r) \<noteq> columns then Inl ShapeMismatchError
                    else Inr \<lparr>Rows = rows, Columns = columns, Entries = grid\<rparr>))"

subsection \<open>Trace\<close>

text \<open>
  The two nested \<^verbatim>\<open>range\<close> loops of \<^verbatim>\<open>Trace\<close>: every entry is visited, and added when
  its row index equals its column index.
\<close>

definition trace_row :: "nat \<Rightarrow> go_int list \<Rightarrow> go_int" where
  "trace_row i row = sum_list (map (\<lambda>(j, v). if i = j then v else 0) (enumerate 0 row))"

definition Trace :: "Matrix \<Rightarrow> go_int" where
  "Trace self = sum_list (map (\<lambda>(i, row). trace_row i row) (enumerate 0 (Entries self)))"

subsection \<open>Channels\<close>

text \<open>
  A Go channel of \<^verbatim>\<open>Element\<close>: the queued elements in FIFO order, the capacity
  given to \<^verbatim>\<open>make\<close>, and whether \<^verbatim>\<open>close\<close> has been called. A send on a buffered
  channel needs room in the buffer and blocks otherwise. A channel of capacity zero is
  unbuffered: a send on it goes through only while the receiving goroutine stands at
  its receive from this channel, and the element handed over is held in \<open>buf\<close> until
  that receive takes it, so that the sender cannot hand over a second one before. A
  receive takes the oldest queued element with \<^verbatim>\<open>ok = true\<close>; on an empty channel it
  yields the zero \<^verbatim>\<open>Element\<close> with \<^verbatim>\<open>ok = false\<close> once the channel is closed, and blocks
  (\<open>None\<close>) while it is still open.
\<close>

record chan =
  buf :: "Element list"
  cap :: nat
  is_closed :: bool

definition make_chan :: "nat \<Rightarrow> chan" where
  "make_chan n = \<lparr>buf = [], cap = n, is_closed = False\<rparr>"

definition can_send :: "chan \<Rightarrow> bool \<Rightarrow> bool" where
  "can_send c receiver_waits =
     (if cap c = 0 then buf c = [] \<and> receiver_waits else length (buf c) < cap c)"

definition send :: "Element \<Rightarrow> chan \<Rightarrow> chan" where
  "send e c = c\<lparr>buf := buf c @ [e]\<rparr>"

definition close :: "chan \<Rightarrow> chan" where
  "close c = c\<lparr>is_closed := True\<rparr>"

definition zero_Element :: Element where
  "zero_Element = \<lparr>RowIndex = 0, ColIndex = 0, Value = 0\<rparr>"

definition recv :: "chan \<Rightarrow> (Element \<times> bool \<times> chan) option" where
  "recv c =
     (case buf c of
        x # xs \<Rightarrow> Some (x, True, c\<lparr>buf := xs\<rparr>)
      | [] \<Rightarrow> if is_closed c then Some (zero_Element, False, c) else None)"

subsection \<open>The encoder loops of Multiply\<close>

text \<open>
  The three nested \<^verbatim>\<open>range\<close> loops of \<^verbatim>\<open>Multiply\<close> do nothing but send, and what they
  send depends on the two operands only, so the caller's part of the pipeline is the list
  of its channel operations in program order. Reading \<^verbatim>\<open>secondMatrix.Entries[j]\<close> with
  \<open>j\<close> beyond the rows of the second operand is a run-time panic, which ends the list
  that is executed.
\<close>

datatype action = SendFirst Element | SendSecond Element | IndexPanic

definition inner_sends :: "nat \<Rightarrow> nat \<Rightarrow> go_int \<Rightarrow> go_int list \<Rightarrow> action list" where
  "inner_sends i j firstValue secondRow =
     concat (map (\<lambda>(k, secondValue).
                    [SendFirst \<lparr>RowIndex = i, ColIndex = j, Value = firstValue\<rparr>,
                     SendSecond \<lparr>RowIndex = j, ColIndex = k, Value = secondValue\<rparr>])
                 (enumerate 0 secondRow))"

definition row_sends :: "nat \<Rightarrow> go_int list \<Rightarrow> Matrix \<Rightarrow> action list" where
  "row_sends i firstRow secondMatrix =
     concat (map (\<lambda>(j, firstValue).
                    if j < length (Entries secondMatrix)
                    then inner_sends i j firstValue (Entries secondMatrix ! j)
                    else [IndexPanic])
                 (enumerate 0 firstRow))"

definition encoder :: "Matrix \<Rightarrow> Matrix \<Rightarrow> action list" where
  "encoder self secondMatrix =
     concat (map (\<lambda>(i, firstRow). row_sends i firstRow secondMatrix)
                 (enumerate 0 (Entries self)))"

subsection \<open>The assembler's update\<close>

text \<open>
  \<^verbatim>\<open>computedMatrix.Entries[r][c] += v\<close>, with Go's bounds checks on both indices.
\<close>

definition accumulate :: "Element \<Rightarrow> Matrix \<Rightarrow> error + Matrix" where
  "accumulate e m =
     (if RowIndex e < length (Entries m)
      then (if ColIndex e < length (Entries m ! RowIndex e)
            then Inr (m\<lparr>Entries := (Entries m)
                     [RowIndex e := (Entries m ! RowIndex e)
                        [ColIndex e := Entries m ! RowIndex e ! ColIndex e + Value e]]\<rparr>)
            else Inl IndexOutOfRange)
      else Inl IndexOutOfRange)"

subsection \<open>The pipeline as a transition system\<close>

text \<open>
  A call of \<^verbatim>\<open>Multiply\<close> runs two goroutines: the caller (encoder loops, the two
  \<^verbatim>\<open>close\<close> calls, then the assembling loop over \<^verbatim>\<open>finalOutputChannel\<close>) and the one
  \<^verbatim>\<open>computeProducts\<close> worker. A state holds where each of them stands, the three
  channels and the matrix under construction. The worker's loop body has three points
  at which it can be suspended: before the receive from the first channel, before the
  receive from the second, and before the send of the product (or the \<^verbatim>\<open>close\<close>).
  The goroutines share nothing but the channels (only the caller touches the matrix), so
  the interleavings of their channel operations are all the executions there are. Each
  send names the program point at which its receiver stands at the matching receive,
  which is what a send on an unbuffered channel waits for.
\<close>

datatype caller_pc =
  Sending "action list"
  | CloseSecond
  | Assembling
  | Returned
  | Panicked error

datatype worker_pc =
  RecvFirst
  | RecvSecond Element bool
  | Emit Element bool Element bool
  | Exited

record pipeline =
  caller :: caller_pc
  computedMatrix :: Matrix
  firstInputChannel :: chan
  secondInputChannel :: chan
  finalOutputChannel :: chan
  worker :: worker_pc

fun at_RecvSecond :: "worker_pc \<Rightarrow> bool" where
  "at_RecvSecond (RecvSecond x firstChannelIsOpen) = True"
| "at_RecvSecond RecvFirst = False"
| "at_RecvSecond (Emit x firstChannelIsOpen y secondChannelIsOpen) = False"
| "at_RecvSecond Exited = False"

fun caller_step :: "caller_pc \<Rightarrow> pipeline \<Rightarrow> pipeline option" where
  "caller_step (Sending (SendFirst e # rest)) s =
     (if can_send (firstInputChannel s) (worker s = RecvFirst)
      then Some (s\<lparr>caller := Sending rest, firstInputChannel := send e (firstInputChannel s)\<rparr>)
      else None)"
| "caller_step (Sending (SendSecond e # rest)) s =
     (if can_send (secondInputChannel s) (at_RecvSecond (worker s))
      then Some (s\<lparr>caller := Sending rest, secondInputChannel := send e (secondInputChannel s)\<rparr>)
      else None)"
| "caller_step (Sending (IndexPanic # rest)) s = Some (s\<lparr>caller := Panicked IndexOutOfRange\<rparr>)"
| "caller_step (Sending []) s =
     Some (s\<lparr>caller := CloseSecond, firstInputChannel := close (firstInputChannel s)\<rparr>)"
| "caller_step CloseSecond s =
     Some (s\<lparr>caller := Assembling, secondInputChannel := close (secondInputChannel s)\<rparr>)"
| "caller_step Assembling s =
     (case recv (finalOutputChannel s) of
        None \<Rightarrow> None
      | Some (computedElement, ok, c) \<Rightarrow>
          if ok
          then (case accumulate computedElement (computedMatrix s) of
                  Inl err \<Rightarrow> Some (s\<lparr>caller := Panicked err\<rparr>)
                | Inr m \<Rightarrow> Some (s\<lparr>computedMatrix := m, finalOutputChannel := c\<rparr>))
          else Some (s\<lparr>caller := Returned\<rparr>))"
| "caller_step Returned s = None"
| "caller_step (Panicked err) s = None"

definition product :: "Element \<Rightarrow> Element \<Rightarrow> Element" where
  "product x y = \<lparr>RowIndex = RowIndex x, ColIndex = ColIndex y, Value = Value x * Value y\<rparr>"

fun computeProducts_step :: "worker_pc \<Rightarrow> pipeline \<Rightarrow> pipeline option" where
  "computeProducts_step RecvFirst s =
     (case recv (firstInputChannel s) of
        None \<Rightarrow> None
      | Some (x, firstChannelIsOpen, c) \<Rightarrow>
          Some (s\<lparr>worker := RecvSecond x firstChannelIsOpen, firstInputChannel := c\<rparr>))"
| "computeProducts_step (RecvSecond x firstChannelIsOpen) s =
     (case recv (secondInputChannel s) of
        None \<Rightarrow> None
      | Some (y, secondChannelIsOpen, c) \<Rightarrow>
          Some (s\<lparr>worker := Emit x firstChannelIsOpen y secondChannelIsOpen,
                  secondInputChannel := c\<rparr>))"
| "computeProducts_step (Emit x firstChannelIsOpen y secondChannelIsOpen) s =
     (if firstChannelIsOpen \<and> secondChannelIsOpen
      then (if can_send (finalOutputChannel s) (caller s = Assembling)
            then Some (s\<lparr>worker := RecvFirst,
                         finalOutputChannel := send (product x y) (finalOutputChannel s)\<rparr>)
            else None)
      else Some (s\<lparr>worker := Exited, finalOutputChannel := close (finalOutputChannel s)\<rparr>))"
| "computeProducts_step Exited s = None"

text \<open>
  One step of either goroutine. A panic of the caller ends the process, so the worker
  does not move after it.
\<close>

definition main_step :: "pipeline \<Rightarrow> pipeline option" where
  "main_step s = caller_step (caller s) s"

definition worker_step :: "pipeline \<Rightarrow> pipeline option" where
  "worker_step s =
     (case caller s of
        Panicked err \<Rightarrow> None
      | _ \<Rightarrow> computeProducts_step (worker s) s)"

definition step :: "pipeline \<Rightarrow> pipeline \<Rightarrow> bool" where
  "step s s' = (main_step s = Some s' \<or> worker_step s = Some s')"

text \<open>
  The scheduler may interleave the two goroutines in any order; \<open>reachable s s'\<close> says
  that some interleaving leads from \<open>s\<close> to \<open>s'\<close>.
\<close>

inductive reachable :: "pipeline \<Rightarrow> pipeline \<Rightarrow> bool" where
  reachable_refl: "reachable s s"
| reachable_step: "reachable s s' \<Longrightarrow> step s' s'' \<Longrightarrow> reachable s s''"

text \<open>
  How a state that cannot move ends the call: the caller has returned the matrix, or it
  has panicked, or every goroutine is blocked, which the Go runtime reports as a
  deadlock.
\<close>

definition outcome :: "pipeline \<Rightarrow> error + Matrix" where
  "outcome s =
     (case caller s of
        Returned \<Rightarrow> Inr (computedMatrix s)
      | Panicked err \<Rightarrow> Inl err
      | _ \<Rightarrow> Inl Deadlock)"

text \<open>
  A bound on the number of steps left: every step of either goroutine lowers it.
\<close>

fun action_weight :: "action \<Rightarrow> nat" where
  "action_weight (SendFirst e) = 4"
| "action_weight (SendSecond e) = 4"
| "action_weight IndexPanic = 1"

fun caller_potential :: "caller_pc \<Rightarrow> nat" where
  "caller_potential (Sending acts) = sum_list (map action_weight acts) + 3"
| "caller_potential CloseSecond = 2"
| "caller_potential Assembling = 1"
| "caller_potential Returned = 0"
| "caller_potential (Panicked err) = 0"

fun worker_potential :: "worker_pc \<Rightarrow> nat" where
  "worker_potential RecvFirst = 3"
| "worker_potential (RecvSecond x ok1) = (if ok1 then 5 else 2)"
| "worker_potential (Emit x ok1 y ok2) = (if ok1 \<and> ok2 then 7 else 1)"
| "worker_potential Exited = 0"

definition potential :: "pipeline \<Rightarrow> nat" where
  "potential s =
     caller_potential (caller s) + worker_potential (worker s)
     + 3 * length (buf (firstInputChannel s)) + 3 * length (buf (secondInputChannel s))
     + length (buf (finalOutputChannel s))"

text \<open>
  One run of the pipeline to the end, under the schedule that lets the worker move
  whenever it can and the caller otherwise. It stops in the first state in which neither
  goroutine can move. Every other schedule ends the call the same way (lemma
  \<open>Multiply_schedule_independent\<close> below).
\<close>

function run :: "pipeline \<Rightarrow> pipeline" where
  "run s =
     (case worker_step s of
        Some s' \<Rightarrow> run s'
      | None \<Rightarrow> (case main_step s of Some s' \<Rightarrow> run s' | None \<Rightarrow> s))"
  by pat_completeness auto
termination
proof (relation "measure potential")
  show "wf (measure potential)" by simp
next
  fix s s'
  assume "worker_step s = Some s'"
  then have "computeProducts_step (worker s) s = Some s'"
    by (simp add: worker_step_def split: caller_pc.splits)
  then have "potential s' < potential s"
    by (cases "worker s")
       (auto simp: potential_def recv_def send_def close_def
          split: list.splits if_splits)
  then show "(s', s) \<in> measure potential" by simp
next
  fix s s'
  assume "main_step s = Some s'"
  then have "potential s' < potential s"
    unfolding main_step_def
    by (cases "(caller s, s)" rule: caller_step.cases)
       (auto simp: potential_def recv_def send_def close_def
          split: list.splits if_splits sum.splits)
  then show "(s', s) \<in> measure potential" by simp
qed

declare run.simps [simp del]

subsection \<open>Multiply\<close>

text \<open>
  The part of \<^verbatim>\<open>Multiply\<close> before the loops: the compatibility check, the allocation of
  the result with \<^verbatim>\<open>NewMatrix(self.Rows, self.Columns)\<close> (its error is re-raised as a
  panic), the three channels of capacity \<^verbatim>\<open>size\<close> and the start of the worker.
  \<^verbatim>\<open>size := computedMatrix.Rows * computedMatrix.Rows * computedMatrix.Rows\<close> is computed
  in Go's wrapping arithmetic: it is the cube of \<^verbatim>\<open>Rows\<close> only while that is below
  \<open>2 ^ 63\<close>, that is for \<^verbatim>\<open>Rows\<close> below \<open>2 ^ 21\<close>. \<^verbatim>\<open>make\<close> panics on a negative size, and
  a size of zero gives unbuffered channels. That an implementation refuses a size whose
  buffer does not fit into its address space or memory is, like every other failure to
  allocate, not part of the model.
\<close>

definition Multiply_start :: "Matrix \<Rightarrow> Matrix \<Rightarrow> error + pipeline" where
  "Multiply_start self secondMatrix =
     (if Rows self = Columns secondMatrix
      then (case NewMatrix (Rows self) (Columns self) [] of
              Inl err \<Rightarrow> Inl err
            | Inr computed \<Rightarrow>
                (let size = go_mul (go_mul (Rows computed) (Rows computed)) (Rows computed)
                 in if size < 0 then Inl ChanSizeOutOfRange
                    else Inr \<lparr>caller = Sending (encoder self secondMatrix),
                              computedMatrix = computed,
                              firstInputChannel = make_chan (nat size),
                              secondInputChannel = make_chan (nat size),
                              finalOutputChannel = make_chan (nat size),
                              worker = RecvFirst\<rparr>))
      else Inl IncompatibleDimensionsError)"

definition Multiply :: "Matrix \<Rightarrow> Matrix \<Rightarrow> error + Matrix" where
  "Multiply self secondMatrix =
     (case Multiply_start self secondMatrix of
        Inl err \<Rightarrow> Inl err
      | Inr s \<Rightarrow> outcome (run s))"

subsection \<open>Exponentiate\<close>

text \<open>
  \<^verbatim>\<open>for i := 1; i < power; i++ { currentMatrix = initialMatrix.Multiply(currentMatrix) }\<close>;
  a panic of \<^verbatim>\<open>Multiply\<close> leaves the loop. The parameter \<^verbatim>\<open>power\<close> is written \<open>pwr\<close>.
\<close>

function exponentiate_loop :: "int \<Rightarrow> int \<Rightarrow> Matrix \<Rightarrow> Matrix \<Rightarrow> error + Matrix" where
  "exponentiate_loop i pwr initialMatrix currentMatrix =
     (if i < pwr
      then (case Multiply initialMatrix currentMatrix of
              Inl err \<Rightarrow> Inl err
            | Inr m \<Rightarrow> exponentiate_loop (i + 1) pwr initialMatrix m)
      else Inr currentMatrix)"
  by pat_completeness auto
termination
  by (relation "measure (\<lambda>(i, pwr, initialMatrix, currentMatrix). nat (pwr - i))") auto

declare exponentiate_loop.simps [simp del]

definition Exponentiate :: "Matrix \<Rightarrow> int \<Rightarrow> error + Matrix" where
  "Exponentiate initialMatrix pwr =
     (if pwr \<le> 0 then Inl InvalidPowerError
      else exponentiate_loop 1 pwr initialMatrix initialMatrix)"

section \<open>Package main\<close>

definition isGraphCyclic :: "Matrix \<Rightarrow> error + bool" where
  "isGraphCyclic adjacencyMatrix =
     (case Exponentiate adjacencyMatrix (Rows adjacencyMatrix) of
        Inl err \<Rightarrow> Inl err
      | Inr raisedAdjacencyMatrix \<Rightarrow> Inr (Trace raisedAdjacencyMatrix \<noteq> 0))"

text \<open>
  The part of \<^verbatim>\<open>main\<close> that follows the parsing of the file, from the table of integers
  \<^verbatim>\<open>matrixElements\<close> on, as the list of what it prints. \<^verbatim>\<open>log.Fatal\<close> prints the error
  and ends the process with exit status 1; a panic of \<^verbatim>\<open>isGraphCyclic\<close> ends it as well.
  Both \<^verbatim>\<open>matrixRows\<close> and \<^verbatim>\<open>matrixColumns\<close> are assigned \<^verbatim>\<open>len(matrixElements)\<close>.
\<close>

datatype printed =
  Warning
  | PrintLine string
  | PrintMatrix Matrix
  | PrintBool bool
  | LogFatal error
  | Panic error

definition main_after_parse :: "go_int list list \<Rightarrow> printed list" where
  "main_after_parse matrixElements =
     (let matrixRows = int (length matrixElements);
          matrixColumns = int (length matrixElements)
      in (if matrixRows \<noteq> matrixColumns then [Warning] else []) @
         (case NewMatrix matrixRows matrixColumns [matrixElements] of
            Inl err \<Rightarrow> [LogFatal err]
          | Inr constructedMatrix \<Rightarrow>
              [PrintLine ''Original matrix:'', PrintMatrix constructedMatrix,
               PrintLine ''Is it cyclic?''] @
              (case isGraphCyclic constructedMatrix of
                 Inl err \<Rightarrow> [Panic err]
               | Inr verdict \<Rightarrow> [PrintBool verdict])))"

section \<open>Notions used to state and prove the properties\<close>

subsection \<open>What is still on its way through the pipeline\<close>

text \<open>
  What is still on its way to the result matrix, read off a state: the elements the
  caller has yet to send on each input channel, those queued in the channels, those the
  worker holds, and the products queued in the output channel. The two input streams are
  consumed in lockstep, so the products still to come are the pairwise products of the
  two streams, in order.
\<close>

fun firsts :: "action list \<Rightarrow> Element list" where
  "firsts [] = []"
| "firsts (SendFirst e # acts) = e # firsts acts"
| "firsts (SendSecond e # acts) = firsts acts"
| "firsts (IndexPanic # acts) = firsts acts"

fun seconds :: "action list \<Rightarrow> Element list" where
  "seconds [] = []"
| "seconds (SendFirst e # acts) = seconds acts"
| "seconds (SendSecond e # acts) = e # seconds acts"
| "seconds (IndexPanic # acts) = seconds acts"

fun caller_firsts :: "caller_pc \<Rightarrow> Element list" where
  "caller_firsts (Sending acts) = firsts acts"
| "caller_firsts CloseSecond = []"
| "caller_firsts Assembling = []"
| "caller_firsts Returned = []"
| "caller_firsts (Panicked err) = []"

fun caller_seconds :: "caller_pc \<Rightarrow> Element list" where
  "caller_seconds (Sending acts) = seconds acts"
| "caller_seconds CloseSecond = []"
| "caller_seconds Assembling = []"
| "caller_seconds Returned = []"
| "caller_seconds (Panicked err) = []"

fun worker_firsts :: "worker_pc \<Rightarrow> Element list" where
  "worker_firsts RecvFirst = []"
| "worker_firsts (RecvSecond x ok1) = (if ok1 then [x] else [])"
| "worker_firsts (Emit x ok1 y ok2) = (if ok1 \<and> ok2 then [x] else [])"
| "worker_firsts Exited = []"

fun worker_seconds :: "worker_pc \<Rightarrow> Element list" where
  "worker_seconds RecvFirst = []"
| "worker_seconds (RecvSecond x ok1) = []"
| "worker_seconds (Emit x ok1 y ok2) = (if ok1 \<and> ok2 then [y] else [])"
| "worker_seconds Exited = []"

definition stream1 :: "pipeline \<Rightarrow> Element list" where
  "stream1 s = worker_firsts (worker s) @ buf (firstInputChannel s) @ caller_firsts (caller s)"

definition stream2 :: "pipeline \<Rightarrow> Element list" where
  "stream2 s = worker_seconds (worker s) @ buf (secondInputChannel s) @ caller_seconds (caller s)"

definition pending :: "pipeline \<Rightarrow> Element list" where
  "pending s = buf (finalOutputChannel s) @ map2 product (stream1 s) (stream2 s)"

fun assemble :: "Element list \<Rightarrow> Matrix \<Rightarrow> error + Matrix" where
  "assemble [] m = Inr m"
| "assemble (e # es) m =
     (case accumulate e m of Inl err \<Rightarrow> Inl err | Inr m' \<Rightarrow> assemble es m')"

fun caller_ok :: "caller_pc \<Rightarrow> bool \<Rightarrow> bool \<Rightarrow> bool" where
  "caller_ok (Sending acts) closed1 closed2 = (IndexPanic \<notin> set acts \<and> \<not> closed1 \<and> \<not> closed2)"
| "caller_ok CloseSecond closed1 closed2 = (closed1 \<and> \<not> closed2)"
| "caller_ok Assembling closed1 closed2 = (closed1 \<and> closed2)"
| "caller_ok Returned closed1 closed2 = (closed1 \<and> closed2)"
| "caller_ok (Panicked err) closed1 closed2 = False"

fun worker_ok :: "worker_pc \<Rightarrow> pipeline \<Rightarrow> bool" where
  "worker_ok RecvFirst s = (\<not> is_closed (finalOutputChannel s))"
| "worker_ok (RecvSecond x ok1) s =
     (\<not> is_closed (finalOutputChannel s)
      \<and> (ok1 \<or> buf (firstInputChannel s) = [] \<and> is_closed (firstInputChannel s)))"
| "worker_ok (Emit x ok1 y ok2) s =
     (\<not> is_closed (finalOutputChannel s)
      \<and> (ok1 \<and> ok2 \<or> \<not> ok1 \<and> buf (firstInputChannel s) = [] \<and> is_closed (firstInputChannel s)))"
| "worker_ok Exited s =
     (is_closed (finalOutputChannel s) \<and> buf (firstInputChannel s) = []
      \<and> is_closed (firstInputChannel s))"

text \<open>
  The invariant, for the matrix \<open>result\<close> that the call is going to return: assembling
  everything that is still on its way into the matrix under construction gives
  \<open>result\<close>; the two input streams have the same length; each channel has room for
  everything that will still be sent on it; and the channels are closed exactly when the
  program counters say so.
\<close>

definition pipeline_inv :: "Matrix \<Rightarrow> pipeline \<Rightarrow> bool" where
  "pipeline_inv result s =
     (assemble (pending s) (computedMatrix s) = Inr result
      \<and> length (stream1 s) = length (stream2 s)
      \<and> length (buf (firstInputChannel s)) + length (caller_firsts (caller s))
          \<le> cap (firstInputChannel s)
      \<and> length (buf (secondInputChannel s)) + length (caller_seconds (caller s))
          \<le> cap (secondInputChannel s)
      \<and> length (buf (finalOutputChannel s)) + length (stream1 s) \<le> cap (finalOutputChannel s)
      \<and> caller_ok (caller s) (is_closed (firstInputChannel s)) (is_closed (secondInputChannel s))
      \<and> worker_ok (worker s) s
      \<and> (caller s = Returned \<longrightarrow> worker s = Exited \<and> buf (finalOutputChannel s) = []))"

text \<open>
  What any two steps of different goroutines need in order to commute: the caller does
  not send on a channel it has closed, and only the worker's exit closes the output
  channel.
\<close>

definition flags_ok :: "pipeline \<Rightarrow> bool" where
  "flags_ok s =
     ((case caller s of
         Sending acts \<Rightarrow> \<not> is_closed (firstInputChannel s) \<and> \<not> is_closed (secondInputChannel s)
       | CloseSecond \<Rightarrow> \<not> is_closed (secondInputChannel s)
       | _ \<Rightarrow> True)
      \<and> (worker s = Exited \<or> \<not> is_closed (finalOutputChannel s)))"

subsection \<open>The products of the encoder and the reference product\<close>

text \<open>
  The products the pipeline will emit are fixed by the encoder's list of sends: the
  pairwise products of what goes to the first channel and what goes to the second.
  \<open>cellsum r c\<close> adds the values of the elements tagged for cell \<open>(r, c)\<close>.
  \<open>reference_product\<close> is the serial matrix product the specification compares with:
  entry \<open>(i, k)\<close> is the sum over \<open>j\<close> of \<open>a[i][j] * b[j][k]\<close>.
\<close>

definition products :: "action list \<Rightarrow> Element list" where
  "products acts = map2 product (firsts acts) (seconds acts)"

definition balanced :: "action list \<Rightarrow> bool" where
  "balanced acts = (length (firsts acts) = length (seconds acts))"

definition cellsum :: "nat \<Rightarrow> nat \<Rightarrow> Element list \<Rightarrow> go_int" where
  "cellsum r c es =
     sum_list (map (\<lambda>e. if RowIndex e = r \<and> ColIndex e = c then Value e else 0) es)"

definition square_matrix :: "nat \<Rightarrow> Matrix \<Rightarrow> bool" where
  "square_matrix n m =
     (Rows m = int n \<and> Columns m = int n \<and> length (Entries m) = n
      \<and> list_all (\<lambda>row. length row = n) (Entries m))"

definition reference_product :: "nat \<Rightarrow> Matrix \<Rightarrow> Matrix \<Rightarrow> Matrix" where
  "reference_product n a b =
     \<lparr>Rows = int n, Columns = int n,
      Entries = map (\<lambda>i. map (\<lambda>k. sum_list (map (\<lambda>j. Entries a ! i ! j * Entries b ! j ! k)
                                               [0..<n]))
                           [0..<n])
                    [0..<n]\<rparr>"

text \<open>
  A grid of \<open>r\<close> rows of \<open>c\<close> entries each.
\<close>

definition shape :: "nat \<Rightarrow> nat \<Rightarrow> Matrix \<Rightarrow> bool" where
  "shape r c m = (length (Entries m) = r \<and> list_all (\<lambda>row. length row = c) (Entries m))"

text \<open>
  What holds in every state of the pipeline, whatever the operands: the matrix under
  construction has the shape and the \<^verbatim>\<open>Rows\<close> and \<^verbatim>\<open>Columns\<close> that \<^verbatim>\<open>NewMatrix\<close> gave
  it, and a panic of the caller is an index out of range.
\<close>

definition frame :: "nat \<Rightarrow> nat \<Rightarrow> int \<Rightarrow> int \<Rightarrow> pipeline \<Rightarrow> bool" where
  "frame R C rows cols s =
     (shape R C (computedMatrix s) \<and> Rows (computedMatrix s) = rows
      \<and> Columns (computedMatrix s) = cols
      \<and> (case caller s of Panicked err \<Rightarrow> err = IndexOutOfRange | _ \<Rightarrow> True))"

subsection \<open>Walks in the graph of an adjacency matrix\<close>

text \<open>
  The graph of an adjacency matrix has an edge from \<open>u\<close> to \<open>v\<close> when entry \<open>(u, v)\<close>
  is not zero. A walk is a list of nodes in which each is joined to the next by an edge;
  it is closed when it has at least one edge and ends where it starts. A graph has a cycle
  exactly when it has a closed walk.
\<close>

definition edge :: "Matrix \<Rightarrow> nat \<Rightarrow> nat \<Rightarrow> bool" where
  "edge g u v = (u < length (Entries g) \<and> v < length (Entries g ! u) \<and> Entries g ! u ! v \<noteq> 0)"

fun walk :: "Matrix \<Rightarrow> nat list \<Rightarrow> bool" where
  "walk g (u # v # vs) = (edge g u v \<and> walk g (v # vs))"
| "walk g [u] = True"
| "walk g [] = True"

definition closed_walk :: "Matrix \<Rightarrow> nat list \<Rightarrow> bool" where
  "closed_walk g vs = (2 \<le> length vs \<and> hd vs = last vs \<and> walk g vs)"

section \<open>The potential and the invariant of the pipeline\<close>

lemma worker_step_potential: "worker_step s = Some s' \<Longrightarrow> potential s' < potential s"
proof -
  assume "worker_step s = Some s'"
  then have "computeProducts_step (worker s) s = Some s'"
    by (simp add: worker_step_def split: caller_pc.splits)
  then show "potential s' < potential s"
    by (cases "worker s")
       (auto simp: potential_def recv_def send_def close_def
          split: list.splits if_splits)
qed

lemma main_step_potential: "main_step s = Some s' \<Longrightarrow> potential s' < potential s"
  unfolding main_step_def
  by (cases "(caller s, s)" rule: caller_step.cases)
     (auto simp: potential_def recv_def send_def close_def
        split: list.splits if_splits sum.splits)

lemma assemble_append:
  "assemble (es @ fs) m = (case assemble es m of Inl err \<Rightarrow> Inl err | Inr m' \<Rightarrow> assemble fs m')"
  by (induction es arbitrary: m) (auto split: sum.splits)

lemma caller_step_inv:
  assumes "caller_step pc s = Some s'" and "caller s = pc" and "pipeline_inv result s"
  shows "pipeline_inv result s'"
  using assms
proof (induction pc s rule: caller_step.induct)
  case (1 e rest s)
  then show ?case
    by (cases "worker s")
       (auto simp: pipeline_inv_def pending_def stream1_def stream2_def send_def can_send_def
          split: if_splits)
next
  case (2 e rest s)
  then show ?case
    by (cases "worker s")
       (auto simp: pipeline_inv_def pending_def stream1_def stream2_def send_def can_send_def
          split: if_splits)
next
  case (3 rest s)
  then show ?case by (simp add: pipeline_inv_def)
next
  case (4 s)
  then show ?case
    by (cases "worker s")
       (auto simp: pipeline_inv_def pending_def stream1_def stream2_def close_def
          split: if_splits)
next
  case (5 s)
  then show ?case
    by (cases "worker s")
       (auto simp: pipeline_inv_def pending_def stream1_def stream2_def close_def
          split: if_splits)
next
  case (6 s)
  then show ?case
    by (cases "worker s")
       (auto simp: pipeline_inv_def pending_def stream1_def stream2_def recv_def
          split: if_splits list.splits sum.splits)
next
  case (7 s)
  then show ?case by simp
next
  case (8 err s)
  then show ?case by simp
qed


lemma computeProducts_step_inv:
  assumes "computeProducts_step pc s = Some s'" and "worker s = pc" and "pipeline_inv result s"
  shows "pipeline_inv result s'"
  using assms
proof (induction pc s rule: computeProducts_step.induct)
  case (1 s)
  then show ?case
    by (cases "caller s")
       (auto simp: pipeline_inv_def pending_def stream1_def stream2_def recv_def
          split: if_splits list.splits)
next
  case (2 x ok1 s)
  then show ?case
    by (cases "caller s")
       (auto simp: pipeline_inv_def pending_def stream1_def stream2_def recv_def
          split: if_splits list.splits)
next
  case (3 x ok1 y ok2 s)
  then show ?case
    by (cases "caller s")
       (auto simp: pipeline_inv_def pending_def stream1_def stream2_def send_def close_def
          can_send_def split: if_splits)
next
  case (4 s)
  then show ?case by simp
qed

lemma main_step_inv:
  "main_step s = Some s' \<Longrightarrow> pipeline_inv result s \<Longrightarrow> pipeline_inv result s'"
  unfolding main_step_def by (rule caller_step_inv [OF _ refl])

lemma worker_step_inv:
  "worker_step s = Some s' \<Longrightarrow> pipeline_inv result s \<Longrightarrow> pipeline_inv result s'"
  unfolding worker_step_def
  by (cases "caller s") (auto intro: computeProducts_step_inv [OF _ refl])

lemma step_inv: "step s s' \<Longrightarrow> pipeline_inv result s \<Longrightarrow> pipeline_inv result s'"
  unfolding step_def using main_step_inv worker_step_inv by blast

lemma reachable_inv: "reachable s s' \<Longrightarrow> pipeline_inv result s \<Longrightarrow> pipeline_inv result s'"
  by (induction rule: reachable.induct) (auto intro: step_inv)

lemma inv_caller_moves:
  assumes "pipeline_inv result s" and "caller s = Sending acts \<or> caller s = CloseSecond"
  shows "\<exists>s'. main_step s = Some s'"
proof (cases "caller s")
  case (Sending as)
  then show ?thesis using assms(1)
    by (cases as rule: firsts.cases)
       (auto simp: main_step_def pipeline_inv_def can_send_def)
qed (use assms in \<open>auto simp: main_step_def\<close>)

lemma inv_progress:
  assumes "pipeline_inv result s" and "caller s \<noteq> Returned"
  shows "\<exists>s'. step s s'"
proof (cases "caller s")
  case (Sending acts)
  then show ?thesis using inv_caller_moves [OF assms(1)] by (auto simp: step_def)
next
  case CloseSecond
  then show ?thesis using inv_caller_moves [OF assms(1)] by (auto simp: step_def)
next
  case Assembling
  show ?thesis
  proof (cases "recv (finalOutputChannel s)")
    case (Some r)
    then show ?thesis using Assembling
      by (cases r) (auto simp: step_def main_step_def split: sum.splits)
  next
    case None
    then have out: "buf (finalOutputChannel s) = []" "\<not> is_closed (finalOutputChannel s)"
      by (auto simp: recv_def split: list.splits if_splits)
    have "\<exists>s'. worker_step s = Some s'"
      using assms(1) Assembling out
      by (cases "worker s")
         (auto simp: worker_step_def pipeline_inv_def recv_def stream1_def can_send_def
            split: list.splits)
    then show ?thesis by (auto simp: step_def)
  qed
next
  case Returned
  then show ?thesis using assms(2) by simp
next
  case (Panicked err)
  then show ?thesis using assms(1) by (simp add: pipeline_inv_def)
qed

lemma inv_Returned:
  assumes "pipeline_inv result s" and "caller s = Returned"
  shows "computedMatrix s = result" and "worker s = Exited"
  using assms by (auto simp: pipeline_inv_def pending_def stream1_def stream2_def)

lemma step_reachable:
  assumes "reachable s' s''" and "step s s'"
  shows "reachable s s''"
  using assms
proof (induction rule: reachable.induct)
  case (reachable_refl s')
  then show ?case by (rule reachable.intros(2) [OF reachable.intros(1)])
next
  case (reachable_step s' t t')
  then show ?case by (auto intro: reachable.intros(2))
qed

lemma run_reachable: "reachable s (run s)"
proof (induction s rule: run.induct)
  case (1 s)
  show ?case
  proof (cases "worker_step s")
    case (Some s')
    then have "step s s'" by (simp add: step_def)
    moreover  have "reachable s' (run s')" using "1.IH"(2) [OF Some] .
    moreover have "run s = run s'" using Some by (subst run.simps) simp
    ultimately show ?thesis using step_reachable by simp
  next
    case None
    show ?thesis
    proof (cases "main_step s")
      case (Some s')
      then have "step s s'" by (simp add: step_def)
      moreover have "reachable s' (run s')" using "1.IH"(1) [OF None Some] .
      moreover have "run s = run s'" using None Some by (subst run.simps) simp
      ultimately show ?thesis using step_reachable by simp
    next
      case main_None: None
      have "run s = s" using None main_None by (subst run.simps) simp
      then show ?thesis by (simp add: reachable.intros(1))
    qed
  qed
qed

lemma run_final: "\<not> step (run s) s'"
proof (induction s rule: run.induct)
  case (1 s)
  show ?case
  proof (cases "worker_step s")
    case (Some t)
    have "run s = run t" using Some by (subst run.simps) simp
    then show ?thesis using "1.IH"(2) [OF Some] by simp
  next
    case None
    show ?thesis
    proof (cases "main_step s")
      case (Some t)
      have "run s = run t" using None Some by (subst run.simps) simp
      then show ?thesis using "1.IH"(1) [OF None Some] by simp
    next
      case main_None: None
      have "run s = s" using None main_None by (subst run.simps) simp
      then show ?thesis using None main_None by (simp add: step_def)
    qed
  qed
qed

lemma inv_final:
  assumes "pipeline_inv result s" and "\<And>s'. \<not> step s s'"
  shows "outcome s = Inr result" and "worker s = Exited"
proof -
  have "caller s = Returned" using inv_progress [OF assms(1)] assms(2) by blast
  then show "outcome s = Inr result" and "worker s = Exited"
    using inv_Returned [OF assms(1)] by (simp_all add: outcome_def)
qed

lemma step_potential: "step s s' \<Longrightarrow> potential s' < potential s"
  unfolding step_def using main_step_potential worker_step_potential by blast

section \<open>Every schedule ends a call the same way\<close>

text \<open>
  The two goroutines only meet in the channels, and a step of one never disables a step
  of the other: they commute, unless the caller's step is a panic, which it then is in
  either order with the same error. Since every step lowers the potential, every
  interleaving that runs until nothing can move ends with the outcome of \<open>run\<close>. So
  \<open>Multiply\<close>, defined by one schedule, is what a call does under any schedule, for all
  operands: a matrix, a panic or a deadlock.
\<close>

lemma main_step_flags_ok: "main_step s = Some s' \<Longrightarrow> flags_ok s \<Longrightarrow> flags_ok s'"
  unfolding main_step_def
  by (cases "(caller s, s)" rule: caller_step.cases)
     (auto simp: flags_ok_def send_def close_def recv_def
        split: list.splits if_splits sum.splits)

lemma worker_step_flags_ok: "worker_step s = Some s' \<Longrightarrow> flags_ok s \<Longrightarrow> flags_ok s'"
  unfolding worker_step_def
  by (cases "caller s"; cases "worker s")
     (auto simp: flags_ok_def send_def close_def recv_def
        split: list.splits if_splits)

lemma step_flags_ok: "step s s' \<Longrightarrow> flags_ok s \<Longrightarrow> flags_ok s'"
  unfolding step_def using main_step_flags_ok worker_step_flags_ok by blast

lemma Multiply_start_flags_ok: "Multiply_start self secondMatrix = Inr s \<Longrightarrow> flags_ok s"
  by (auto simp: Multiply_start_def flags_ok_def make_chan_def Let_def
      split: if_splits sum.splits)

lemma Panicked_final: "caller s = Panicked err \<Longrightarrow> \<not> step s s'"
  by (simp add: step_def main_step_def worker_step_def)

lemma diamond:
  assumes "flags_ok s" and "main_step s = Some s1" and "worker_step s = Some s2"
  shows "(\<exists>err s3. caller s1 = Panicked err \<and> main_step s2 = Some s3 \<and> caller s3 = Panicked err)
         \<or> (\<exists>s3. worker_step s1 = Some s3 \<and> main_step s2 = Some s3)"
  using assms unfolding main_step_def worker_step_def
  by (cases "(caller s, s)" rule: caller_step.cases; cases "worker s")
     (auto simp: flags_ok_def send_def close_def recv_def can_send_def
        split: list.splits if_splits sum.splits)


lemma reachable_first_step:
  "reachable s t \<Longrightarrow> s = t \<or> (\<exists>s'. step s s' \<and> reachable s' t)"
proof (induction rule: reachable.induct)
  case (reachable_refl s)
  then show ?case by simp
next
  case (reachable_step s t u)
  then show ?case
    by (metis reachable.intros)
qed

lemma run_worker: "worker_step s = Some s' \<Longrightarrow> run s = run s'"
  by (subst run.simps) simp

lemma run_main: "worker_step s = None \<Longrightarrow> main_step s = Some s' \<Longrightarrow> run s = run s'"
  by (subst run.simps) simp

lemma run_stuck: "worker_step s = None \<Longrightarrow> main_step s = None \<Longrightarrow> run s = s"
  by (subst run.simps) simp

lemma outcome_unique:
  "flags_ok s \<Longrightarrow> reachable s t \<Longrightarrow> \<forall>t'. \<not> step t t' \<Longrightarrow> outcome t = outcome (run s)"
proof (induction s arbitrary: t rule: measure_induct_rule [of potential])
  case (less s)
  have IH: "outcome u = outcome (run s')"
    if "step s s'" and "reachable s' u" and "\<forall>u'. \<not> step u u'" for s' u
    using less.IH [OF step_potential [OF that(1)] step_flags_ok [OF that(1) less.prems(1)] that(2,3)] .
  from reachable_first_step [OF less.prems(2)]
  consider "s = t" | s'' where "step s s''" "reachable s'' t" by blast
  then show ?case
  proof cases
    case 1
    then have "worker_step s = None" "main_step s = None"
      using less.prems(3) by (simp_all add: step_def not_Some_eq [symmetric] del: not_Some_eq)
    then show ?thesis using 1 by (simp add: run_stuck)
  next
    case 2
    show ?thesis
    proof (cases "worker_step s")
      case None
      then obtain s1 where s1: "main_step s = Some s1" "s'' = s1"
        using 2(1) by (auto simp: step_def)
      then show ?thesis using IH [OF 2(1) 2(2) less.prems(3)] None by (simp add: run_main)
    next
      case (Some s2)
      have run: "run s = run s2" by (rule run_worker [OF Some])
      have step2: "step s s2" using Some by (simp add: step_def)
      show ?thesis
      proof (cases "s'' = s2")
        case True
        then show ?thesis using IH [OF 2(1) 2(2) less.prems(3)] run by simp
      next
        case False
        then have s1: "main_step s = Some s''" using 2(1) Some by (auto simp: step_def)
        from diamond [OF less.prems(1) s1 Some]
        show ?thesis
        proof (elim disjE exE conjE)
          fix err s3
          assume p: "caller s'' = Panicked err" "main_step s2 = Some s3" "caller s3 = Panicked err"
          have "t = s''"
            using reachable_first_step [OF 2(2)] Panicked_final [OF p(1)] by blast
          moreover have "outcome s3 = outcome (run s2)"
          proof (rule IH [OF step2])
            show "reachable s2 s3"
              using p(2) by (auto simp: step_def intro: reachable.intros)
            show "\<forall>u'. \<not> step s3 u'" using Panicked_final [OF p(3)] by blast
          qed
          ultimately show ?thesis using p run by (simp add: outcome_def)
        next
          fix s3
          assume c: "worker_step s'' = Some s3" "main_step s2 = Some s3"
          have fin: "\<forall>u'. \<not> step (run s3) u'" using run_final by blast
          have "reachable s'' (run s3)"
            using c(1) run_reachable [of s3] by (auto simp: step_def intro: step_reachable)
          then have a: "outcome (run s3) = outcome (run s'')" by (rule IH [OF 2(1) _ fin])
          have "reachable s2 (run s3)"
            using c(2) run_reachable [of s3] by (auto simp: step_def intro: step_reachable)
          then have b: "outcome (run s3) = outcome (run s2)" by (rule IH [OF step2 _ fin])
          have "outcome t = outcome (run s'')" by (rule IH [OF 2(1) 2(2) less.prems(3)])
          then show ?thesis using a b run by simp
        qed
      qed
    qed
  qed
qed

lemma Multiply_schedule_independent:
  assumes "Multiply_start self secondMatrix = Inr s0" and "reachable s0 t"
    and "\<forall>t'. \<not> step t t'"
  shows "outcome t = Multiply self secondMatrix"
  using outcome_unique [OF Multiply_start_flags_ok [OF assms(1)] assms(2,3)] assms(1)
  by (simp add: Multiply_def)

section \<open>What the pipeline computes on square operands\<close>

lemma map_enumerate:
  "map f (enumerate k xs) = map (\<lambda>i. f (k + i, xs ! i)) [0..<length xs]"
  by (rule nth_equalityI) (simp_all add: nth_enumerate_eq)

lemma firsts_append: "firsts (as @ bs) = firsts as @ firsts bs"
  by (induction as rule: firsts.induct) simp_all

lemma seconds_append: "seconds (as @ bs) = seconds as @ seconds bs"
  by (induction as rule: seconds.induct) simp_all

lemma balanced_append: "balanced as \<Longrightarrow> balanced bs \<Longrightarrow> balanced (as @ bs)"
  by (simp add: balanced_def firsts_append seconds_append)

lemma products_append: "balanced as \<Longrightarrow> products (as @ bs) = products as @ products bs"
  by (simp add: balanced_def products_def firsts_append seconds_append)

lemma balanced_concat: "\<forall>x\<in>set xs. balanced (f x) \<Longrightarrow> balanced (concat (map f xs))"
  by (induction xs) (simp_all add: balanced_append, simp add: balanced_def)

lemma products_concat:
  "\<forall>x\<in>set xs. balanced (f x) \<Longrightarrow>
   products (concat (map f xs)) = concat (map (\<lambda>x. products (f x)) xs)"
  by (induction xs) (simp_all add: products_append, simp add: products_def)

lemma cellsum_append: "cellsum r c (es @ fs) = cellsum r c es + cellsum r c fs"
  by (simp add: cellsum_def)

lemma cellsum_concat:
  "cellsum r c (concat (map f xs)) = sum_list (map (\<lambda>x. cellsum r c (f x)) xs)"
  by (induction xs) (simp_all add: cellsum_append, simp add: cellsum_def)

lemma sum_list_pick:
  "sum_list (map (\<lambda>i. if i = k then f i else (0::go_int)) [0..<n]) = (if k < n then f k else 0)"
  by (induction n) auto

lemma sum_list_pick':
  "sum_list (map (\<lambda>i. if k = i then f i else (0::go_int)) [0..<n]) = (if k < n then f k else 0)"
  by (induction n) auto


lemma firsts_concat: "firsts (concat (map f xs)) = concat (map (\<lambda>x. firsts (f x)) xs)"
  by (induction xs) (simp_all add: firsts_append)

lemma no_panic_concat:
  "IndexPanic \<in> set (concat (map f xs)) \<longleftrightarrow> (\<exists>x\<in>set xs. IndexPanic \<in> set (f x))"
  by auto

lemma inner_sends_balanced: "balanced (inner_sends i j a row)"
  unfolding inner_sends_def by (rule balanced_concat) (auto simp: balanced_def)

lemma inner_sends_no_panic: "IndexPanic \<notin> set (inner_sends i j a row)"
  by (auto simp: inner_sends_def)

lemma inner_sends_products:
  "products (inner_sends i j a row) =
   map (\<lambda>k. \<lparr>RowIndex = i, ColIndex = k, Value = a * row ! k\<rparr>) [0..<length row]"
proof -
  have "products (inner_sends i j a row) =
        concat (map (\<lambda>x. [\<lparr>RowIndex = i, ColIndex = fst x, Value = a * snd x\<rparr>]) (enumerate 0 row))"
    unfolding inner_sends_def
    by (subst products_concat) (auto simp: balanced_def products_def product_def split_def)
  also have "\<dots> = map (\<lambda>x. \<lparr>RowIndex = i, ColIndex = fst x, Value = a * snd x\<rparr>) (enumerate 0 row)"
    by (induction row rule: rev_induct) (simp_all add: enumerate_append_eq)
  also have "\<dots> = map (\<lambda>k. \<lparr>RowIndex = i, ColIndex = k, Value = a * row ! k\<rparr>) [0..<length row]"
    by (simp add: map_enumerate)
  finally show ?thesis .
qed

lemma inner_sends_length_firsts: "length (firsts (inner_sends i j a row)) = length row"
proof -
  have "length (firsts (inner_sends i j a row)) = length (products (inner_sends i j a row))"
    using inner_sends_balanced [of i j a row] by (simp add: products_def balanced_def)
  then show ?thesis by (simp add: inner_sends_products)
qed

lemma row_sends_eq:
  assumes "length firstRow \<le> length (Entries secondMatrix)"
  shows "row_sends i firstRow secondMatrix =
         concat (map (\<lambda>j. inner_sends i j (firstRow ! j) (Entries secondMatrix ! j))
                     [0..<length firstRow])"
proof -
  have "row_sends i firstRow secondMatrix =
        concat (map (\<lambda>j. if j < length (Entries secondMatrix)
                          then inner_sends i j (firstRow ! j) (Entries secondMatrix ! j)
                          else [IndexPanic]) [0..<length firstRow])"
    by (simp add: row_sends_def map_enumerate)
  also have "\<dots> = concat (map (\<lambda>j. inner_sends i j (firstRow ! j) (Entries secondMatrix ! j))
                     [0..<length firstRow])"
    using assms by (intro arg_cong [where f = concat] map_cong) auto
  finally show ?thesis .
qed

lemma encoder_eq:
  "encoder self secondMatrix =
   concat (map (\<lambda>i. row_sends i (Entries self ! i) secondMatrix) [0..<length (Entries self)])"
  by (simp add: encoder_def map_enumerate)


lemma square_matrix_row: "square_matrix n m \<Longrightarrow> i < n \<Longrightarrow> length (Entries m ! i) = n"
  by (simp add: square_matrix_def list_all_length)

lemma square_matrix_length: "square_matrix n m \<Longrightarrow> length (Entries m) = n"
  by (simp add: square_matrix_def)

lemma row_sends_square:
  assumes "square_matrix n a" and "square_matrix n b" and "i < n"
  shows "row_sends i (Entries a ! i) b =
         concat (map (\<lambda>j. inner_sends i j (Entries a ! i ! j) (Entries b ! j)) [0..<n])"
  using assms by (simp add: row_sends_eq square_matrix_row square_matrix_length)

lemma row_sends_square_balanced:
  assumes "square_matrix n a" and "square_matrix n b" and "i < n"
  shows "balanced (row_sends i (Entries a ! i) b)"
  unfolding row_sends_square [OF assms]
  by (rule balanced_concat) (simp add: inner_sends_balanced)

lemma row_sends_square_no_panic:
  assumes "square_matrix n a" and "square_matrix n b" and "i < n"
  shows "IndexPanic \<notin> set (row_sends i (Entries a ! i) b)"
  unfolding row_sends_square [OF assms] by (simp add: inner_sends_no_panic)

lemma row_sends_square_products:
  assumes "square_matrix n a" and "square_matrix n b" and "i < n"
  shows "products (row_sends i (Entries a ! i) b) =
         concat (map (\<lambda>j. map (\<lambda>k. \<lparr>RowIndex = i, ColIndex = k,
                                         Value = Entries a ! i ! j * Entries b ! j ! k\<rparr>) [0..<n])
                     [0..<n])"
proof -
  have "products (row_sends i (Entries a ! i) b) =
        concat (map (\<lambda>j. products (inner_sends i j (Entries a ! i ! j) (Entries b ! j))) [0..<n])"
    unfolding row_sends_square [OF assms]
    by (rule products_concat) (simp add: inner_sends_balanced)
  also have "\<dots> = concat (map (\<lambda>j. map (\<lambda>k. \<lparr>RowIndex = i, ColIndex = k,
                                         Value = Entries a ! i ! j * Entries b ! j ! k\<rparr>) [0..<n])
                     [0..<n])"
    using assms(2)
    by (intro arg_cong [where f = concat] map_cong)
       (simp_all add: inner_sends_products square_matrix_row)
  finally show ?thesis .
qed

lemma encoder_square_balanced:
  assumes "square_matrix n a" and "square_matrix n b"
  shows "balanced (encoder a b)"
  unfolding encoder_eq
  by (rule balanced_concat)
     (use assms in \<open>simp add: row_sends_square_balanced square_matrix_length\<close>)

lemma encoder_square_no_panic:
  assumes "square_matrix n a" and "square_matrix n b"
  shows "IndexPanic \<notin> set (encoder a b)"
  unfolding encoder_eq
  using assms by (simp add: row_sends_square_no_panic square_matrix_length)

lemma encoder_square_products:
  assumes "square_matrix n a" and "square_matrix n b"
  shows "products (encoder a b) =
         concat (map (\<lambda>i. concat (map (\<lambda>j. map (\<lambda>k. \<lparr>RowIndex = i, ColIndex = k,
                                         Value = Entries a ! i ! j * Entries b ! j ! k\<rparr>) [0..<n])
                     [0..<n])) [0..<n])"
proof -
  have "products (encoder a b) =
        concat (map (\<lambda>i. products (row_sends i (Entries a ! i) b)) [0..<length (Entries a)])"
    unfolding encoder_eq
    by (rule products_concat)
       (use assms in \<open>simp add: row_sends_square_balanced square_matrix_length\<close>)
  also have "\<dots> = concat (map (\<lambda>i. concat (map (\<lambda>j. map (\<lambda>k. \<lparr>RowIndex = i, ColIndex = k,
                                         Value = Entries a ! i ! j * Entries b ! j ! k\<rparr>) [0..<n])
                     [0..<n])) [0..<n])"
    using assms
    by (intro arg_cong [where f = concat] map_cong)
       (simp_all add: row_sends_square_products square_matrix_length)
  finally show ?thesis .
qed

lemma length_concat_const:
  "(\<And>x. x \<in> set xs \<Longrightarrow> length (f x) = c) \<Longrightarrow> length (concat (map f xs)) = length xs * c"
  by (induction xs) simp_all

lemma encoder_square_length:
  assumes "square_matrix n a" and "square_matrix n b"
  shows "length (products (encoder a b)) = n * n * n"
  unfolding encoder_square_products [OF assms]
  by (simp add: length_concat_const)

lemma encoder_square_cellsum:
  assumes "square_matrix n a" and "square_matrix n b" and "r < n" and "c < n"
  shows "cellsum r c (products (encoder a b)) =
         sum_list (map (\<lambda>j. Entries a ! r ! j * Entries b ! j ! c) [0..<n])"
proof -
  have inner: "cellsum r c (map (\<lambda>k. \<lparr>RowIndex = i, ColIndex = k, Value = f k\<rparr>) [0..<n]) =
               (if i = r then f c else 0)" for i and f :: "nat \<Rightarrow> go_int"
  proof -
    have "cellsum r c (map (\<lambda>k. \<lparr>RowIndex = i, ColIndex = k, Value = f k\<rparr>) [0..<n]) =
          sum_list (map (\<lambda>k. if k = c then (if i = r then f k else 0) else 0) [0..<n])"
      unfolding cellsum_def by (simp add: comp_def cong: if_cong)
    then show ?thesis using assms(4) by (simp add: sum_list_pick)
  qed
  have "cellsum r c (products (encoder a b)) =
        sum_list (map (\<lambda>i. sum_list (map (\<lambda>j. if i = r then Entries a ! i ! j * Entries b ! j ! c
                                                 else 0) [0..<n])) [0..<n])"
    unfolding encoder_square_products [OF assms(1,2)]
    by (simp add: cellsum_concat inner)
  also have "\<dots> = sum_list (map (\<lambda>i. if i = r
                                      then sum_list (map (\<lambda>j. Entries a ! i ! j * Entries b ! j ! c)
                                                         [0..<n])
                                      else 0) [0..<n])"
    by (intro arg_cong [where f = sum_list] map_cong) simp_all
  also have "\<dots> = sum_list (map (\<lambda>j. Entries a ! r ! j * Entries b ! j ! c) [0..<n])"
    using assms(3) by (simp add: sum_list_pick)
  finally show ?thesis .
qed

lemma accumulate_in_range:
  assumes "shape R C m" and "RowIndex e < R" and "ColIndex e < C"
  shows "\<exists>m'. accumulate e m = Inr m' \<and> shape R C m' \<and> Rows m' = Rows m
            \<and> Columns m' = Columns m
            \<and> (\<forall>r<R. \<forall>c<C. Entries m' ! r ! c = Entries m ! r ! c + cellsum r c [e])"
  using assms
  by (auto simp: accumulate_def shape_def list_all_length cellsum_def nth_list_update)

lemma assemble_in_range:
  assumes "shape R C m" and "list_all (\<lambda>e. RowIndex e < R \<and> ColIndex e < C) es"
  shows "\<exists>m'. assemble es m = Inr m' \<and> shape R C m' \<and> Rows m' = Rows m
            \<and> Columns m' = Columns m
            \<and> (\<forall>r<R. \<forall>c<C. Entries m' ! r ! c = Entries m ! r ! c + cellsum r c es)"
  using assms
proof (induction es arbitrary: m)
  case Nil
  then show ?case by (simp add: cellsum_def)
next
  case (Cons e es)
  from Cons.prems obtain m1 where m1: "accumulate e m = Inr m1" "shape R C m1"
    "Rows m1 = Rows m" "Columns m1 = Columns m"
    "\<forall>r<R. \<forall>c<C. Entries m1 ! r ! c = Entries m ! r ! c + cellsum r c [e]"
    using accumulate_in_range [of R C m e] by auto
  from Cons.IH [OF m1(2)] Cons.prems(2) obtain m2 where m2: "assemble es m1 = Inr m2"
    "shape R C m2" "Rows m2 = Rows m1" "Columns m2 = Columns m1"
    "\<forall>r<R. \<forall>c<C. Entries m2 ! r ! c = Entries m1 ! r ! c + cellsum r c es"
    by auto
  have "cellsum r c (e # es) = cellsum r c [e] + cellsum r c es" for r c
    by (simp add: cellsum_def)
  then show ?case using m1 m2 by (auto simp: add.assoc)
qed

lemma encoder_square_in_range:
  assumes "square_matrix n a" and "square_matrix n b"
  shows "list_all (\<lambda>e. RowIndex e < n \<and> ColIndex e < n) (products (encoder a b))"
  unfolding encoder_square_products [OF assms] by (auto simp: list_all_iff)

lemma matrix_eqI:
  assumes "shape n n m" and "Rows m = int n" and "Columns m = int n"
    and "\<And>r c. r < n \<Longrightarrow> c < n \<Longrightarrow>
           Entries m ! r ! c = sum_list (map (\<lambda>j. Entries a ! r ! j * Entries b ! j ! c) [0..<n])"
  shows "m = reference_product n a b"
proof -
  have "Entries m = Entries (reference_product n a b)"
  proof (rule nth_equalityI)
    show "length (Entries m) = length (Entries (reference_product n a b))"
      using assms(1) by (simp add: shape_def reference_product_def)
  next
    fix r assume "r < length (Entries m)"
    then have r: "r < n" using assms(1) by (simp add: shape_def)
    then have len: "length (Entries m ! r) = n"
      using assms(1) by (simp add: shape_def list_all_length)
    show "Entries m ! r = Entries (reference_product n a b) ! r"
      by (rule nth_equalityI) (use r len assms(4) in \<open>simp_all add: reference_product_def\<close>)
  qed
  then show ?thesis using assms(2,3) by (cases m) (simp add: reference_product_def)
qed

lemma assemble_square:
  assumes "square_matrix n a" and "square_matrix n b"
  shows "assemble (products (encoder a b))
           \<lparr>Rows = int n, Columns = int n, Entries = replicate n (replicate n 0)\<rparr>
         = Inr (reference_product n a b)"
proof -
  let ?zero = "\<lparr>Rows = int n, Columns = int n, Entries = replicate n (replicate n 0)\<rparr>"
  have "shape n n ?zero" by (simp add: shape_def list_all_length)
  from assemble_in_range [OF this encoder_square_in_range [OF assms]]
  obtain m where m: "assemble (products (encoder a b)) ?zero = Inr m" "shape n n m"
    "Rows m = int n" "Columns m = int n"
    "\<forall>r<n. \<forall>c<n. Entries m ! r ! c = Entries ?zero ! r ! c + cellsum r c (products (encoder a b))"
    by auto
  have "m = reference_product n a b"
    by (rule matrix_eqI [OF m(2,3,4)]) (use m(5) assms in \<open>simp add: encoder_square_cellsum\<close>)
  then show ?thesis using m(1) by simp
qed

lemma go_mul_small: "0 \<le> a \<Longrightarrow> 0 \<le> b \<Longrightarrow> a * b < 2 ^ 63 \<Longrightarrow> go_mul a b = a * b"
  by (simp add: go_mul_def)

lemma cube_bound:
  assumes "n < (2::nat) ^ 21"
  shows "n * n < 2 ^ 42" and "n * n * n < 2 ^ 63"
proof -
  have "n * n < 2 ^ 21 * 2 ^ 21"
    using assms by (intro mult_strict_mono) simp_all
  then show a: "n * n < 2 ^ 42" by simp
  have "n * n * n < 2 ^ 42 * 2 ^ 21"
    using a assms by (intro mult_strict_mono) simp_all
  then show "n * n * n < 2 ^ 63" by simp
qed

text \<open>
  Below \<open>2 ^ 21\<close> rows the channel size that \<^verbatim>\<open>Multiply\<close> computes is the cube of the
  row count.
\<close>

lemma go_mul_cube:
  assumes "n < (2::nat) ^ 21"
  shows "go_mul (go_mul (int n) (int n)) (int n) = int (n * n * n)"
proof -
  have a: "int n * int n < 2 ^ 63"
    using cube_bound(1) [OF assms]
    by (simp flip: of_nat_mult add: of_nat_less_numeral_power_cancel_iff)
  have b: "int n * int n * int n < 2 ^ 63"
    using cube_bound(2) [OF assms]
    by (simp flip: of_nat_mult add: of_nat_less_numeral_power_cancel_iff)
  have "go_mul (int n) (int n) = int n * int n"
    using a by (intro go_mul_small) simp_all
  moreover have "go_mul (int n * int n) (int n) = int n * int n * int n"
    using b by (intro go_mul_small) simp_all
  ultimately show ?thesis by simp
qed

lemma Multiply_start_square:
  assumes "square_matrix n a" and "square_matrix n b" and "0 < n" and "n < 2 ^ 21"
  shows "Multiply_start a b =
         Inr \<lparr>caller = Sending (encoder a b),
              computedMatrix =
                \<lparr>Rows = int n, Columns = int n, Entries = replicate n (replicate n 0)\<rparr>,
              firstInputChannel = make_chan (n * n * n),
              secondInputChannel = make_chan (n * n * n),
              finalOutputChannel = make_chan (n * n * n),
              worker = RecvFirst\<rparr>"
  using assms(1,2,3)
  by (simp add: Multiply_start_def NewMatrix_def square_matrix_def Let_def
      go_mul_cube [OF assms(4)] del: of_nat_mult)

lemma Multiply_start_square_inv:
  assumes "square_matrix n a" and "square_matrix n b" and "0 < n" and "n < 2 ^ 21"
    and "Multiply_start a b = Inr s"
  shows "pipeline_inv (reference_product n a b) s"
proof -
  have bal: "length (firsts (encoder a b)) = length (seconds (encoder a b))"
    using encoder_square_balanced [OF assms(1,2)] by (simp add: balanced_def)
  have len: "length (firsts (encoder a b)) = n * n * n"
    using encoder_square_length [OF assms(1,2)] bal by (simp add: products_def)
  show ?thesis
    using assms(5) bal len encoder_square_no_panic [OF assms(1,2)]
      assemble_square [OF assms(1,2)]
    unfolding Multiply_start_square [OF assms(1,2,3,4)]
    by (auto simp: pipeline_inv_def pending_def stream1_def stream2_def make_chan_def
        products_def)
qed

lemma Multiply_square:
  assumes "square_matrix n a" and "square_matrix n b" and "0 < n" and "n < 2 ^ 21"
  shows "Multiply a b = Inr (reference_product n a b)"
proof -
  obtain s where s: "Multiply_start a b = Inr s"
    using Multiply_start_square [OF assms] by simp
  have "pipeline_inv (reference_product n a b) (run s)"
    using reachable_inv [OF run_reachable Multiply_start_square_inv [OF assms s]] .
  then have "outcome (run s) = Inr (reference_product n a b)"
    by (rule inv_final) (rule run_final)
  then show ?thesis using s by (simp add: Multiply_def)
qed

lemma reference_product_entry:
  "i < n \<Longrightarrow> k < n \<Longrightarrow>
   Entries (reference_product n a b) ! i ! k = (\<Sum>j<n. Entries a ! i ! j * Entries b ! j ! k)"
  by (simp add: reference_product_def interv_sum_list_conv_sum_set_nat atLeast0LessThan)

text \<open>
  With \<open>2 ^ 21\<close> rows the cube of the row count is \<open>2 ^ 63\<close>, which Go's \<^verbatim>\<open>int\<close>
  cannot hold: the product wraps around to \<open>- 2 ^ 63\<close>, and \<^verbatim>\<open>make\<close> panics before any
  channel exists.
\<close>

lemma zero_matrix_square:
  "square_matrix n \<lparr>Rows = int n, Columns = int n, Entries = replicate n (replicate n 0)\<rparr>"
  by (simp add: square_matrix_def list_all_length)

lemma Multiply_start_overflow:
  "Multiply_start
     \<lparr>Rows = 2097152, Columns = 2097152,
      Entries = replicate 2097152 (replicate 2097152 0)\<rparr>
     \<lparr>Rows = 2097152, Columns = 2097152,
      Entries = replicate 2097152 (replicate 2097152 0)\<rparr>
   = Inl ChanSizeOutOfRange"
  by (simp add: Multiply_start_def NewMatrix_def go_mul_def)

text \<open>
  C1. For square n-by-n operands with \<open>n > 0\<close>, \<^verbatim>\<open>Multiply\<close> returns the matrix whose
  entry \<open>(i, k)\<close> is the sum over \<open>j\<close> of \<open>a[i][j] * b[j][k]\<close> (in Go's wrapping
  arithmetic, as a serial loop would compute it), and the result does not depend on the
  schedule. This fails for \<open>n = 2 ^ 21\<close>, where the channel size overflows and
  \<^verbatim>\<open>Multiply\<close> panics in \<^verbatim>\<open>make\<close>.
\<close>

theorem Multiply_overflow_no_product:
  "square_matrix 2097152
     \<lparr>Rows = 2097152, Columns = 2097152,
      Entries = replicate 2097152 (replicate 2097152 0)\<rparr>
   \<and> (0::nat) < 2097152
   \<and> Multiply
       \<lparr>Rows = 2097152, Columns = 2097152,
        Entries = replicate 2097152 (replicate 2097152 0)\<rparr>
       \<lparr>Rows = 2097152, Columns = 2097152,
        Entries = replicate 2097152 (replicate 2097152 0)\<rparr>
     = Inl ChanSizeOutOfRange"
  using zero_matrix_square [of 2097152]
  by (simp add: Multiply_def Multiply_start_overflow)

text \<open>
  C1, amended. For square n-by-n operands with \<open>0 < n < 2 ^ 21\<close>, \<^verbatim>\<open>Multiply\<close>
  returns the matrix whose entry \<open>(i, k)\<close> is the sum over \<open>j\<close> of
  \<open>a[i][j] * b[j][k]\<close>, and every interleaving of the caller and the worker that runs
  until neither can move ends with the caller returning this same matrix.
\<close>

theorem Multiply_matches_reference:
  assumes "square_matrix n a" and "square_matrix n b" and "0 < n" and "n < 2 ^ 21"
  shows "\<exists>m s0. Multiply a b = Inr m \<and> m = reference_product n a b
           \<and> (\<forall>i<n. \<forall>k<n. Entries m ! i ! k = (\<Sum>j<n. Entries a ! i ! j * Entries b ! j ! k))
           \<and> Multiply_start a b = Inr s0
           \<and> (\<forall>s. reachable s0 s \<and> (\<forall>s'. \<not> step s s') \<longrightarrow> outcome s = Inr m)"
proof -
  obtain s0 where s0: "Multiply_start a b = Inr s0"
    using Multiply_start_square [OF assms] by simp
  have inv: "pipeline_inv (reference_product n a b) s0"
    by (rule Multiply_start_square_inv [OF assms s0])
  have "outcome s = Inr (reference_product n a b)"
    if "reachable s0 s" and "\<forall>s'. \<not> step s s'" for s
    using inv_final(1) [OF reachable_inv [OF that(1) inv]] that(2) by blast
  then show ?thesis
    using Multiply_square [OF assms] s0 by (auto simp: reference_product_entry)
qed

theorem Multiply_matches_reference_witness:
  "square_matrix 2 \<lparr>Rows = 2, Columns = 2, Entries = [[1, 2], [3, 4]]\<rparr>
   \<and> square_matrix 2 \<lparr>Rows = 2, Columns = 2, Entries = [[5, 6], [7, 8]]\<rparr>
   \<and> (2::nat) < 2 ^ 21
   \<and> Multiply \<lparr>Rows = 2, Columns = 2, Entries = [[1, 2], [3, 4]]\<rparr>
               \<lparr>Rows = 2, Columns = 2, Entries = [[5, 6], [7, 8]]\<rparr>
      = Inr \<lparr>Rows = 2, Columns = 2, Entries = [[19, 22], [43, 50]]\<rparr>"
  using Multiply_matches_reference [of 2 "\<lparr>Rows = 2, Columns = 2, Entries = [[1, 2], [3, 4]]\<rparr>"
      "\<lparr>Rows = 2, Columns = 2, Entries = [[5, 6], [7, 8]]\<rparr>"]
  by (auto simp: square_matrix_def reference_product_def upt_rec)

section \<open>Freedom from deadlock\<close>

text \<open>
  C2. For square n-by-n operands with \<open>n > 0\<close> a call of \<^verbatim>\<open>Multiply\<close> runs to
  completion without deadlock, because the channels are buffered to at least the number
  of elements ever sent. This fails for \<open>n = 2 ^ 21\<close>: the encoder would send \<open>2 ^ 63\<close>
  elements on each input channel, the size computed for the channels is \<open>- 2 ^ 63\<close>, and
  the call ends with the panic of \<^verbatim>\<open>make\<close>.
\<close>

theorem Multiply_overflow_no_channels:
  "square_matrix 2097152
     \<lparr>Rows = 2097152, Columns = 2097152,
      Entries = replicate 2097152 (replicate 2097152 0)\<rparr>
   \<and> (0::nat) < 2097152
   \<and> length (firsts (encoder
        \<lparr>Rows = 2097152, Columns = 2097152,
         Entries = replicate 2097152 (replicate 2097152 0)\<rparr>
        \<lparr>Rows = 2097152, Columns = 2097152,
         Entries = replicate 2097152 (replicate 2097152 0)\<rparr>)) = 9223372036854775808
   \<and> go_mul (go_mul 2097152 2097152) 2097152 = - 9223372036854775808
   \<and> Multiply_start
       \<lparr>Rows = 2097152, Columns = 2097152,
        Entries = replicate 2097152 (replicate 2097152 0)\<rparr>
       \<lparr>Rows = 2097152, Columns = 2097152,
        Entries = replicate 2097152 (replicate 2097152 0)\<rparr>
     = Inl ChanSizeOutOfRange"
proof -
  have sq: "square_matrix 2097152
     \<lparr>Rows = 2097152, Columns = 2097152,
      Entries = replicate 2097152 (replicate 2097152 0)\<rparr>"
    using zero_matrix_square [of 2097152] by simp
  have bal: "length (firsts (encoder
        \<lparr>Rows = 2097152, Columns = 2097152,
         Entries = replicate 2097152 (replicate 2097152 0)\<rparr>
        \<lparr>Rows = 2097152, Columns = 2097152,
         Entries = replicate 2097152 (replicate 2097152 0)\<rparr>))
      = length (seconds (encoder
        \<lparr>Rows = 2097152, Columns = 2097152,
         Entries = replicate 2097152 (replicate 2097152 0)\<rparr>
        \<lparr>Rows = 2097152, Columns = 2097152,
         Entries = replicate 2097152 (replicate 2097152 0)\<rparr>))"
    using encoder_square_balanced [OF sq sq] by (simp add: balanced_def)
  have "length (firsts (encoder
        \<lparr>Rows = 2097152, Columns = 2097152,
         Entries = replicate 2097152 (replicate 2097152 0)\<rparr>
        \<lparr>Rows = 2097152, Columns = 2097152,
         Entries = replicate 2097152 (replicate 2097152 0)\<rparr>)) = 2097152 * 2097152 * 2097152"
    using encoder_square_length [OF sq sq] bal by (simp only: products_def length_map length_zip min.idem)
  moreover have "go_mul (go_mul 2097152 2097152) 2097152 = - 9223372036854775808"
    by (simp add: go_mul_def)
  ultimately show ?thesis
    using sq Multiply_start_overflow by simp
qed

text \<open>
  C2, amended. For square n-by-n operands with \<open>0 < n < 2 ^ 21\<close> a call of
  \<^verbatim>\<open>Multiply\<close> runs to completion. Each of the three channels has capacity
  \<open>n * n * n\<close>, which is the number of elements the encoder sends on each input channel.
  In every state that any schedule can reach: the caller is never blocked while it is in
  the encoder loops; some goroutine can move unless the caller has returned; when the
  caller has returned, the worker has exited; and every step lowers \<open>potential\<close>, so no
  run is infinite.
\<close>

theorem Multiply_no_deadlock:
  assumes "square_matrix n a" and "square_matrix n b" and "0 < n" and "n < 2 ^ 21"
  shows "\<exists>s0 m. Multiply_start a b = Inr s0
           \<and> length (firsts (encoder a b)) = n * n * n
           \<and> length (seconds (encoder a b)) = n * n * n
           \<and> cap (firstInputChannel s0) = n * n * n
           \<and> cap (secondInputChannel s0) = n * n * n
           \<and> cap (finalOutputChannel s0) = n * n * n
           \<and> (\<forall>s. reachable s0 s \<longrightarrow>
                  (\<forall>acts. caller s = Sending acts \<longrightarrow> (\<exists>s'. main_step s = Some s'))
                  \<and> (caller s = Returned \<or> (\<exists>s'. step s s'))
                  \<and> (caller s = Returned \<longrightarrow> worker s = Exited)
                  \<and> (\<forall>s'. step s s' \<longrightarrow> potential s' < potential s))
           \<and> Multiply a b = Inr m"
proof -
  have start: "Multiply_start a b =
         Inr \<lparr>caller = Sending (encoder a b),
              computedMatrix =
                \<lparr>Rows = int n, Columns = int n, Entries = replicate n (replicate n 0)\<rparr>,
              firstInputChannel = make_chan (n * n * n),
              secondInputChannel = make_chan (n * n * n),
              finalOutputChannel = make_chan (n * n * n),
              worker = RecvFirst\<rparr>" (is "_ = Inr ?s0")
    by (rule Multiply_start_square [OF assms])
  have inv: "pipeline_inv (reference_product n a b) ?s0"
    by (rule Multiply_start_square_inv [OF assms start])
  have bal: "length (firsts (encoder a b)) = length (seconds (encoder a b))"
    using encoder_square_balanced [OF assms(1,2)] by (simp add: balanced_def)
  have len: "length (firsts (encoder a b)) = n * n * n"
    using encoder_square_length [OF assms(1,2)] bal by (simp add: products_def)
  have "(\<forall>acts. caller s = Sending acts \<longrightarrow> (\<exists>s'. main_step s = Some s'))
        \<and> (caller s = Returned \<or> (\<exists>s'. step s s'))
        \<and> (caller s = Returned \<longrightarrow> worker s = Exited)
        \<and> (\<forall>s'. step s s' \<longrightarrow> potential s' < potential s)"
    if "reachable ?s0 s" for s
  proof -
    have "pipeline_inv (reference_product n a b) s"
      by (rule reachable_inv [OF that inv])
    then show ?thesis
      using inv_caller_moves inv_progress inv_Returned(2) step_potential by blast
  qed
  then show ?thesis
    using start bal len Multiply_square [OF assms] by (simp add: make_chan_def)
qed

theorem Multiply_no_deadlock_witness:
  "square_matrix 2 \<lparr>Rows = 2, Columns = 2, Entries = [[1, 2], [3, 4]]\<rparr>
   \<and> square_matrix 2 \<lparr>Rows = 2, Columns = 2, Entries = [[5, 6], [7, 8]]\<rparr>
   \<and> (2::nat) < 2 ^ 21
   \<and> (\<exists>s0 m. Multiply_start \<lparr>Rows = 2, Columns = 2, Entries = [[1, 2], [3, 4]]\<rparr>
               \<lparr>Rows = 2, Columns = 2, Entries = [[5, 6], [7, 8]]\<rparr> = Inr s0
          \<and> cap (firstInputChannel s0) = 8
          \<and> (\<forall>s. reachable s0 s \<longrightarrow> caller s = Returned \<or> (\<exists>s'. step s s'))
          \<and> Multiply \<lparr>Rows = 2, Columns = 2, Entries = [[1, 2], [3, 4]]\<rparr>
               \<lparr>Rows = 2, Columns = 2, Entries = [[5, 6], [7, 8]]\<rparr> = Inr m)"
proof -
  have sq: "square_matrix 2 \<lparr>Rows = 2, Columns = 2, Entries = [[1, 2], [3, 4]]\<rparr>"
    "square_matrix 2 \<lparr>Rows = 2, Columns = 2, Entries = [[5, 6], [7, 8]]\<rparr>"
    by (simp_all add: square_matrix_def)
  have small: "(2::nat) < 2 ^ 21" by simp
  show ?thesis
    using Multiply_no_deadlock [OF sq _ small] sq by fastforce
qed

section \<open>The dimension check of Multiply and the shape of its result\<close>

lemma accumulate_frame:
  "accumulate e m = Inr m' \<Longrightarrow> shape R C m \<Longrightarrow>
   shape R C m' \<and> Rows m' = Rows m \<and> Columns m' = Columns m"
  by (auto simp: accumulate_def shape_def list_all_length nth_list_update split: if_splits)

lemma accumulate_error: "accumulate e m = Inl err \<Longrightarrow> err = IndexOutOfRange"
  by (auto simp: accumulate_def split: if_splits)

lemma caller_step_frame:
  assumes "caller_step pc s = Some s'" and "caller s = pc" and "frame R C rows cols s"
  shows "frame R C rows cols s'"
  using assms
proof (induction pc s rule: caller_step.induct)
  case (6 s)
  from "6.prems"(1) obtain e ok c where r: "recv (finalOutputChannel s) = Some (e, ok, c)"
    by (auto split: option.splits)
  show ?case
  proof (cases ok)
    case False
    then show ?thesis using "6.prems" r by (auto simp: frame_def)
  next
    case True
    show ?thesis
    proof (cases "accumulate e (computedMatrix s)")
      case (Inl err)
      then show ?thesis
        using "6.prems" r True accumulate_error [OF Inl] by (auto simp: frame_def)
    next
      case (Inr m)
      have "shape R C (computedMatrix s)" using "6.prems"(3) by (simp add: frame_def)
      from accumulate_frame [OF Inr this] show ?thesis
        using "6.prems" r True Inr by (auto simp: frame_def)
    qed
  qed
qed (auto simp: frame_def split: if_splits)

lemma computeProducts_step_frame:
  assumes "computeProducts_step pc s = Some s'" and "frame R C rows cols s"
  shows "frame R C rows cols s'"
  using assms
  by (induction pc s rule: computeProducts_step.induct)
     (auto simp: frame_def split: option.splits if_splits)

lemma main_step_frame:
  "main_step s = Some s' \<Longrightarrow> frame R C rows cols s \<Longrightarrow> frame R C rows cols s'"
  unfolding main_step_def by (rule caller_step_frame [OF _ refl])

lemma worker_step_frame:
  "worker_step s = Some s' \<Longrightarrow> frame R C rows cols s \<Longrightarrow> frame R C rows cols s'"
  unfolding worker_step_def
  by (cases "caller s") (auto intro: computeProducts_step_frame)

lemma step_frame: "step s s' \<Longrightarrow> frame R C rows cols s \<Longrightarrow> frame R C rows cols s'"
  unfolding step_def using main_step_frame worker_step_frame by blast

lemma reachable_frame:
  "reachable s s' \<Longrightarrow> frame R C rows cols s \<Longrightarrow> frame R C rows cols s'"
  by (induction rule: reachable.induct) (auto intro: step_frame)

lemma Multiply_start_frame:
  assumes "Multiply_start self secondMatrix = Inr s"
  shows "frame (nat (Rows self)) (nat (Columns self)) (Rows self) (Columns self) s"
  using assms
  by (auto simp: Multiply_start_def NewMatrix_def frame_def shape_def list_all_length Let_def
      split: if_splits)

lemma Multiply_start_error:
  assumes "Multiply_start self secondMatrix = Inl err"
  shows "err = IncompatibleDimensionsError \<and> Rows self \<noteq> Columns secondMatrix
         \<or> err = DimensionError \<and> Rows self = Columns secondMatrix
         \<or> err = ChanSizeOutOfRange \<and> Rows self = Columns secondMatrix"
  using assms
  by (auto simp: Multiply_start_def NewMatrix_def Let_def split: if_splits)

text \<open>
  C6. \<^verbatim>\<open>Multiply\<close> panics with IncompatibleDimensionsError exactly when the receiver's
  \<^verbatim>\<open>Rows\<close> differs from the argument's \<^verbatim>\<open>Columns\<close>, and a matrix it returns has the
  receiver's \<^verbatim>\<open>Rows\<close> and \<^verbatim>\<open>Columns\<close> and a grid of that many rows and columns.
  The same holds under every schedule: in no state that the pipeline can reach has the
  caller panicked with IncompatibleDimensionsError, and the matrix under construction
  has this shape throughout.
\<close>

theorem Multiply_dimension_contract:
  "(Multiply self secondMatrix = Inl IncompatibleDimensionsError
      \<longleftrightarrow> Rows self \<noteq> Columns secondMatrix)
   \<and> (\<forall>m. Multiply self secondMatrix = Inr m \<longrightarrow>
          Rows m = Rows self \<and> Columns m = Columns self
          \<and> length (Entries m) = nat (Rows self)
          \<and> (\<forall>row\<in>set (Entries m). length row = nat (Columns self)))
   \<and> (\<forall>s0 s. Multiply_start self secondMatrix = Inr s0 \<and> reachable s0 s \<longrightarrow>
          Rows self = Columns secondMatrix
          \<and> caller s \<noteq> Panicked IncompatibleDimensionsError
          \<and> Rows (computedMatrix s) = Rows self \<and> Columns (computedMatrix s) = Columns self
          \<and> length (Entries (computedMatrix s)) = nat (Rows self)
          \<and> (\<forall>row\<in>set (Entries (computedMatrix s)). length row = nat (Columns self)))"
proof -
  have all: "Rows self = Columns secondMatrix
          \<and> caller s \<noteq> Panicked IncompatibleDimensionsError
          \<and> Rows (computedMatrix s) = Rows self \<and> Columns (computedMatrix s) = Columns self
          \<and> length (Entries (computedMatrix s)) = nat (Rows self)
          \<and> (\<forall>row\<in>set (Entries (computedMatrix s)). length row = nat (Columns self))"
    if start: "Multiply_start self secondMatrix = Inr s0" and reach: "reachable s0 s" for s0 s
  proof -
    have eq: "Rows self = Columns secondMatrix"
      using start by (auto simp: Multiply_start_def split: if_splits sum.splits)
    have "frame (nat (Rows self)) (nat (Columns self)) (Rows self) (Columns self) s"
      by (rule reachable_frame [OF reach Multiply_start_frame [OF start]])
    then show ?thesis
      using eq by (auto simp: frame_def shape_def list_all_iff)
  qed
  show ?thesis
  proof (cases "Multiply_start self secondMatrix")
    case (Inl err)
    then show ?thesis
      using Multiply_start_error [OF Inl] by (auto simp: Multiply_def)
  next
    case (Inr s0)
    have mul: "Multiply self secondMatrix = outcome (run s0)"
      using Inr by (simp add: Multiply_def)
    have fin: "Rows self = Columns secondMatrix
          \<and> caller (run s0) \<noteq> Panicked IncompatibleDimensionsError
          \<and> Rows (computedMatrix (run s0)) = Rows self
          \<and> Columns (computedMatrix (run s0)) = Columns self
          \<and> length (Entries (computedMatrix (run s0))) = nat (Rows self)
          \<and> (\<forall>row\<in>set (Entries (computedMatrix (run s0))). length row = nat (Columns self))"
      by (rule all [OF Inr run_reachable])
    have A: "Multiply self secondMatrix = Inl IncompatibleDimensionsError
               \<longleftrightarrow> Rows self \<noteq> Columns secondMatrix"
      using fin unfolding mul by (cases "caller (run s0)") (simp_all add: outcome_def)
    have B: "\<forall>m. Multiply self secondMatrix = Inr m \<longrightarrow>
          Rows m = Rows self \<and> Columns m = Columns self
          \<and> length (Entries m) = nat (Rows self)
          \<and> (\<forall>row\<in>set (Entries m). length row = nat (Columns self))"
      using fin unfolding mul by (cases "caller (run s0)") (simp_all add: outcome_def)
    have C: "\<forall>s0 s. Multiply_start self secondMatrix = Inr s0 \<and> reachable s0 s \<longrightarrow>
          Rows self = Columns secondMatrix
          \<and> caller s \<noteq> Panicked IncompatibleDimensionsError
          \<and> Rows (computedMatrix s) = Rows self \<and> Columns (computedMatrix s) = Columns self
          \<and> length (Entries (computedMatrix s)) = nat (Rows self)
          \<and> (\<forall>row\<in>set (Entries (computedMatrix s)). length row = nat (Columns self))"
      using all by blast
    from A B C show ?thesis by (intro conjI) assumption+
  qed
qed

theorem Multiply_dimension_contract_witness:
  "Multiply \<lparr>Rows = 1, Columns = 2, Entries = [[1, 2]]\<rparr>
            \<lparr>Rows = 1, Columns = 2, Entries = [[1, 2]]\<rparr> = Inl IncompatibleDimensionsError
   \<and> Multiply \<lparr>Rows = 2, Columns = 3, Entries = [[1, 2, 3], [3, 4, 5]]\<rparr>
              \<lparr>Rows = 3, Columns = 2, Entries = [[1, 2], [4, 5], [6, 7]]\<rparr>
      = Inr \<lparr>Rows = 2, Columns = 3, Entries = [[27, 33, 0], [49, 61, 0]]\<rparr>
   \<and> (\<exists>s0. Multiply_start \<lparr>Rows = 2, Columns = 3, Entries = [[1, 2, 3], [3, 4, 5]]\<rparr>
              \<lparr>Rows = 3, Columns = 2, Entries = [[1, 2], [4, 5], [6, 7]]\<rparr> = Inr s0
          \<and> reachable s0 (run s0)
          \<and> Rows (computedMatrix (run s0)) = 2 \<and> Columns (computedMatrix (run s0)) = 3)"
proof -
  have m: "Multiply \<lparr>Rows = 2, Columns = 3, Entries = [[1, 2, 3], [3, 4, 5]]\<rparr>
              \<lparr>Rows = 3, Columns = 2, Entries = [[1, 2], [4, 5], [6, 7]]\<rparr>
      = Inr \<lparr>Rows = 2, Columns = 3, Entries = [[27, 33, 0], [49, 61, 0]]\<rparr>"
    by code_simp
  obtain s0 where s0: "Multiply_start \<lparr>Rows = 2, Columns = 3, Entries = [[1, 2, 3], [3, 4, 5]]\<rparr>
              \<lparr>Rows = 3, Columns = 2, Entries = [[1, 2], [4, 5], [6, 7]]\<rparr> = Inr s0"
    by (simp add: Multiply_start_def NewMatrix_def Let_def go_mul_def)
  show ?thesis
    using Multiply_dimension_contract [of "\<lparr>Rows = 1, Columns = 2, Entries = [[1, 2]]\<rparr>"
      "\<lparr>Rows = 1, Columns = 2, Entries = [[1, 2]]\<rparr>"]
      Multiply_dimension_contract [of "\<lparr>Rows = 2, Columns = 3, Entries = [[1, 2, 3], [3, 4, 5]]\<rparr>"
      "\<lparr>Rows = 3, Columns = 2, Entries = [[1, 2], [4, 5], [6, 7]]\<rparr>"]
      m s0 run_reachable [of s0]
    by auto
qed

section \<open>Exponentiate and the cycle test on square matrices\<close>

lemma reference_product_square: "square_matrix n (reference_product n a b)"
  by (simp add: square_matrix_def reference_product_def list_all_length)

lemma exponentiate_loop_square:
  assumes "square_matrix n initialMatrix" and "square_matrix n currentMatrix" and "0 < n"
    and "n < 2 ^ 21"
  shows "\<exists>m. exponentiate_loop i pwr initialMatrix currentMatrix = Inr m \<and> square_matrix n m"
  using assms
proof (induction i pwr initialMatrix currentMatrix rule: exponentiate_loop.induct)
  case (1 i pwr initialMatrix currentMatrix)
  show ?case
  proof (cases "i < pwr")
    case True
    have mul: "Multiply initialMatrix currentMatrix =
               Inr (reference_product n initialMatrix currentMatrix)"
      by (rule Multiply_square [OF "1.prems"])
    from "1.IH" [OF True mul "1.prems"(1) reference_product_square "1.prems"(3,4)]
    show ?thesis using True mul by (subst exponentiate_loop.simps) simp
  next
    case False
    then show ?thesis using "1.prems"(2) by (subst exponentiate_loop.simps) simp
  qed
qed

lemma exponentiate_loop_one_more:
  "i \<le> pwr \<Longrightarrow>
   exponentiate_loop i (pwr + 1) initialMatrix currentMatrix =
     (case exponentiate_loop i pwr initialMatrix currentMatrix of
        Inl err \<Rightarrow> Inl err
      | Inr m \<Rightarrow> Multiply initialMatrix m)"
proof (induction i pwr initialMatrix currentMatrix rule: exponentiate_loop.induct)
  case (1 i pwr initialMatrix currentMatrix)
  show ?case
  proof (cases "i < pwr")
    case True
    show ?thesis
    proof (cases "Multiply initialMatrix currentMatrix")
      case (Inl err)
      then show ?thesis using True
        by (simp add: exponentiate_loop.simps [of i])
    next
      case (Inr m)
      from "1.IH" [OF True Inr] True
      have "exponentiate_loop (i + 1) (pwr + 1) initialMatrix m =
            (case exponentiate_loop (i + 1) pwr initialMatrix m of
               Inl err \<Rightarrow> Inl err | Inr m' \<Rightarrow> Multiply initialMatrix m')"
        by simp
      then show ?thesis using True Inr
        by (simp add: exponentiate_loop.simps [of i])
    qed
  next
    case False
    then have "i = pwr" using "1.prems" by simp
    then show ?thesis
      by (simp add: exponentiate_loop.simps [of pwr] exponentiate_loop.simps [of "pwr + 1"]
          split: sum.splits)
  qed
qed

lemma Exponentiate_one: "Exponentiate a 1 = Inr a"
  by (simp add: Exponentiate_def exponentiate_loop.simps)

lemma Exponentiate_one_more:
  "1 \<le> k \<Longrightarrow>
   Exponentiate a (k + 1) =
     (case Exponentiate a k of Inl err \<Rightarrow> Inl err | Inr m \<Rightarrow> Multiply a m)"
  by (simp add: Exponentiate_def exponentiate_loop_one_more)

lemma Exponentiate_square:
  assumes "square_matrix n a" and "0 < n" and "n < 2 ^ 21" and "1 \<le> k"
  shows "\<exists>m. Exponentiate a k = Inr m \<and> square_matrix n m"
  using exponentiate_loop_square [OF assms(1) assms(1) assms(2) assms(3)] assms(4)
  by (simp add: Exponentiate_def)


lemma Trace_square:
  assumes "square_matrix n m"
  shows "Trace m = (\<Sum>i<n. Entries m ! i ! i)"
proof -
  have row: "trace_row i (Entries m ! i) = Entries m ! i ! i" if "i < n" for i
    using that square_matrix_row [OF assms that]
    by (simp add: trace_row_def map_enumerate sum_list_pick')
  have "Trace m = sum_list (map (\<lambda>i. trace_row i (Entries m ! i)) [0..<n])"
    using assms by (simp add: Trace_def map_enumerate square_matrix_def)
  also have "\<dots> = sum_list (map (\<lambda>i. Entries m ! i ! i) [0..<n])"
    by (intro arg_cong [where f = sum_list] map_cong) (simp_all add: row)
  finally show ?thesis
    by (simp add: interv_sum_list_conv_sum_set_nat atLeast0LessThan)
qed




text \<open>
  C5. \<^verbatim>\<open>Exponentiate(1)\<close> returns the receiver, and for every \<open>k \<ge> 1\<close>,
  \<^verbatim>\<open>Exponentiate(k + 1)\<close> is the receiver left-multiplied onto \<^verbatim>\<open>Exponentiate(k)\<close>: the
  loop performs one more \<^verbatim>\<open>initialMatrix.Multiply\<close> and no squaring. This holds for every
  receiver, a panic of the shorter chain being the panic of the longer one. On a square
  receiver with \<open>0 < n < 2 ^ 21\<close> no panic occurs and each multiplication is the serial
  matrix product.
\<close>

theorem Exponentiate_left_multiplies:
  "Exponentiate a 1 = Inr a
   \<and> (1 \<le> k \<longrightarrow>
        Exponentiate a (k + 1) =
          (case Exponentiate a k of Inl err \<Rightarrow> Inl err | Inr m \<Rightarrow> Multiply a m))
   \<and> (square_matrix n a \<and> 0 < n \<and> n < 2 ^ 21 \<and> 1 \<le> k \<longrightarrow>
        (\<exists>m. Exponentiate a k = Inr m \<and> square_matrix n m
             \<and> Exponentiate a (k + 1) = Multiply a m
             \<and> Multiply a m = Inr (reference_product n a m)))"
proof -
  have "\<exists>m. Exponentiate a k = Inr m \<and> square_matrix n m
             \<and> Exponentiate a (k + 1) = Multiply a m
             \<and> Multiply a m = Inr (reference_product n a m)"
    if "square_matrix n a" and "0 < n" and "n < 2 ^ 21" and "1 \<le> k"
  proof -
    from Exponentiate_square [OF that] obtain m
      where m: "Exponentiate a k = Inr m" "square_matrix n m" by blast
    show ?thesis
      using m Exponentiate_one_more [OF that(4), of a]
        Multiply_square [OF that(1) m(2) that(2,3)]
      by simp
  qed
  then show ?thesis
    using Exponentiate_one Exponentiate_one_more by blast
qed

theorem Exponentiate_left_multiplies_witness:
  "Exponentiate \<lparr>Rows = 2, Columns = 2, Entries = [[1, 1], [1, 0]]\<rparr> 1
     = Inr \<lparr>Rows = 2, Columns = 2, Entries = [[1, 1], [1, 0]]\<rparr>
   \<and> Exponentiate \<lparr>Rows = 2, Columns = 2, Entries = [[1, 1], [1, 0]]\<rparr> 3
     = Inr \<lparr>Rows = 2, Columns = 2, Entries = [[3, 2], [2, 1]]\<rparr>
   \<and> Exponentiate \<lparr>Rows = 2, Columns = 2, Entries = [[1, 1], [1, 0]]\<rparr> (3 + 1)
     = Multiply \<lparr>Rows = 2, Columns = 2, Entries = [[1, 1], [1, 0]]\<rparr>
                \<lparr>Rows = 2, Columns = 2, Entries = [[3, 2], [2, 1]]\<rparr>
   \<and> Multiply \<lparr>Rows = 2, Columns = 2, Entries = [[1, 1], [1, 0]]\<rparr>
                \<lparr>Rows = 2, Columns = 2, Entries = [[3, 2], [2, 1]]\<rparr>
     = Inr \<lparr>Rows = 2, Columns = 2, Entries = [[5, 3], [3, 2]]\<rparr>"
proof -
  have e3: "Exponentiate \<lparr>Rows = 2, Columns = 2, Entries = [[1, 1], [1, 0]]\<rparr> 3
     = Inr \<lparr>Rows = 2, Columns = 2, Entries = [[3, 2], [2, 1]]\<rparr>"
    by code_simp
  have m: "Multiply \<lparr>Rows = 2, Columns = 2, Entries = [[1, 1], [1, 0]]\<rparr>
                \<lparr>Rows = 2, Columns = 2, Entries = [[3, 2], [2, 1]]\<rparr>
     = Inr \<lparr>Rows = 2, Columns = 2, Entries = [[5, 3], [3, 2]]\<rparr>"
    by code_simp
  show ?thesis
    using Exponentiate_left_multiplies
      [of "\<lparr>Rows = 2, Columns = 2, Entries = [[1, 1], [1, 0]]\<rparr>" 3 2] e3 m
    by simp
qed




section \<open>Cycles that the trace test does not see\<close>

text \<open>
  One direction of the cycle test is right, also in wrapping arithmetic: a non-zero entry
  \<open>(i, j)\<close> of the k-th power comes with a walk of \<open>k\<close> edges from \<open>i\<close> to \<open>j\<close>, so
  when \<^verbatim>\<open>isGraphCyclic\<close> returns true on a square matrix with \<open>0 < n < 2 ^ 21\<close> rows the
  graph has a closed walk of \<open>n\<close> edges.
\<close>

lemma sum_list_nonzero:
  "sum_list (map f xs) \<noteq> (0::go_int) \<Longrightarrow> \<exists>x\<in>set xs. f x \<noteq> 0"
  by (induction xs) (auto split: if_splits)

lemma walk_Cons: "edge g u v \<Longrightarrow> walk g vs \<Longrightarrow> vs \<noteq> [] \<Longrightarrow> hd vs = v \<Longrightarrow> walk g (u # vs)"
  by (cases vs) auto

lemma Exponentiate_entry_walk:
  assumes "square_matrix n a" and "0 < n" and "n < 2 ^ 21"
  shows "Exponentiate a (int (Suc k)) = Inr m \<Longrightarrow> i < n \<Longrightarrow> j < n \<Longrightarrow>
         Entries m ! i ! j \<noteq> 0 \<Longrightarrow>
         \<exists>vs. walk a vs \<and> length vs = Suc (Suc k) \<and> hd vs = i \<and> last vs = j"
proof (induction k arbitrary: m i)
  case 0
  then have "m = a" by (simp add: Exponentiate_one)
  then have "edge a i j"
    using 0 assms(1) by (simp add: edge_def square_matrix_length square_matrix_row)
  then have "walk a [i, j]" by simp
  then show ?case by (intro exI [of _ "[i, j]"]) simp
next
  case (Suc k)
  from Exponentiate_square [OF assms, of "int (Suc k)"] obtain p
    where p: "Exponentiate a (int (Suc k)) = Inr p" "square_matrix n p" by auto
  have "Exponentiate a (int (Suc k) + 1) = Multiply a p"
    using Exponentiate_one_more [of "int (Suc k)" a] p(1) by simp
  then have "m = reference_product n a p"
    using Suc.prems(1) Multiply_square [OF assms(1) p(2) assms(2,3)]
    by (simp add: add.commute)
  then have "sum_list (map (\<lambda>l. Entries a ! i ! l * Entries p ! l ! j) [0..<n]) \<noteq> 0"
    using Suc.prems by (simp add: reference_product_def)
  then obtain l where l: "l < n" "Entries a ! i ! l * Entries p ! l ! j \<noteq> 0"
    using sum_list_nonzero [of "\<lambda>l. Entries a ! i ! l * Entries p ! l ! j" "[0..<n]"] by auto
  then have nz: "Entries a ! i ! l \<noteq> 0" "Entries p ! l ! j \<noteq> 0" by auto
  from Suc.IH [OF p(1) l(1) Suc.prems(3) nz(2)] obtain vs
    where vs: "walk a vs" "length vs = Suc (Suc k)" "hd vs = l" "last vs = j" by blast
  have "edge a i l"
    using nz(1) l(1) Suc.prems(2) assms(1)
    by (simp add: edge_def square_matrix_length square_matrix_row)
  then have "walk a (i # vs)" using vs by (intro walk_Cons [of a i l]) auto
  then show ?case using vs by (intro exI [of _ "i # vs"]) auto
qed

lemma isGraphCyclic_True_closed_walk:
  assumes "square_matrix n a" and "0 < n" and "n < 2 ^ 21" and "isGraphCyclic a = Inr True"
  shows "\<exists>vs. closed_walk a vs \<and> length vs = Suc n"
proof -
  have rows: "Rows a = int n" using assms(1) by (simp add: square_matrix_def)
  from Exponentiate_square [OF assms(1,2,3), of "int n"] assms(2) obtain m
    where m: "Exponentiate a (int n) = Inr m" "square_matrix n m" by auto
  have "Trace m \<noteq> 0" using assms(4) m(1) rows by (simp add: isGraphCyclic_def)
  then have "(\<Sum>i<n. Entries m ! i ! i) \<noteq> 0" by (simp add: Trace_square [OF m(2)])
  then have "\<not> (\<forall>i\<in>{..<n}. Entries m ! i ! i = 0)"
    using sum.neutral [of "{..<n}" "\<lambda>i. Entries m ! i ! i"] by blast
  then obtain i where i: "i < n" "Entries m ! i ! i \<noteq> 0" by auto
  obtain k where k: "n = Suc k" using assms(2) by (cases n) auto
  from Exponentiate_entry_walk [OF assms(1,2,3), of k m i i] m(1) i k obtain vs
    where "walk a vs" "length vs = Suc (Suc k)" "hd vs = i" "last vs = i" by auto
  then show ?thesis using k by (intro exI [of _ vs]) (simp add: closed_walk_def)
qed

text \<open>
  C3. \<^verbatim>\<open>isGraphCyclic\<close> returns true if and only if the graph has a cycle. The code does
  not achieve this: a non-zero trace of the n-th power needs a closed walk of exactly
  \<open>n\<close> edges, and a graph with a cycle need not have one. The graph on three nodes with
  the edges 0 to 1 and 1 to 0 has the cycle 0, 1, 0, but no closed walk of three edges,
  and \<^verbatim>\<open>isGraphCyclic\<close> returns false for it.
\<close>

theorem isGraphCyclic_misses_two_cycle:
  "square_matrix 3 \<lparr>Rows = 3, Columns = 3, Entries = [[0, 1, 0], [1, 0, 0], [0, 0, 0]]\<rparr>
   \<and> closed_walk \<lparr>Rows = 3, Columns = 3, Entries = [[0, 1, 0], [1, 0, 0], [0, 0, 0]]\<rparr> [0, 1, 0]
   \<and> isGraphCyclic \<lparr>Rows = 3, Columns = 3, Entries = [[0, 1, 0], [1, 0, 0], [0, 0, 0]]\<rparr>
      = Inr False"
proof -
  have "isGraphCyclic \<lparr>Rows = 3, Columns = 3, Entries = [[0, 1, 0], [1, 0, 0], [0, 0, 0]]\<rparr>
      = Inr False"
    by code_simp
  then show ?thesis
    by (simp add: square_matrix_def closed_walk_def edge_def)
qed

section \<open>Construction\<close>

lemma NewMatrix_DimensionError:
  "rows \<le> 0 \<or> columns \<le> 0 \<Longrightarrow> NewMatrix rows columns entries = Inl DimensionError"
  by (auto simp: NewMatrix_def)

lemma NewMatrix_zero:
  "0 < rows \<Longrightarrow> 0 < columns \<Longrightarrow>
   NewMatrix rows columns [] =
     Inr \<lparr>Rows = rows, Columns = columns,
          Entries = replicate (nat rows) (replicate (nat columns) 0)\<rparr>"
  by (simp add: NewMatrix_def)

lemma NewMatrix_outer_mismatch:
  "0 < rows \<Longrightarrow> 0 < columns \<Longrightarrow> int (length grid) \<noteq> rows \<Longrightarrow>
   NewMatrix rows columns (grid # others) = Inl ShapeMismatchError"
  by (simp add: NewMatrix_def)

lemma NewMatrix_first_row_mismatch:
  "0 < rows \<Longrightarrow> 0 < columns \<Longrightarrow> int (length (r # rs)) = rows \<Longrightarrow>
   int (length r) \<noteq> columns \<Longrightarrow>
   NewMatrix rows columns ((r # rs) # others) = Inl ShapeMismatchError"
  by (simp add: NewMatrix_def)

text \<open>
  C7. Construct returns DimensionError whenever rows or columns is not positive, a
  zero-filled grid without entries, and ShapeMismatchError whenever the outer length of
  the entries differs from rows or an inner row's length differs from columns. The last
  part fails on the code: only the first inner row is measured, so a ragged grid whose
  first row has the stated length is accepted and becomes a Matrix whose second row is
  too short.
\<close>

theorem NewMatrix_accepts_ragged_grid:
  "NewMatrix 2 2 [[[1, 2], [3]]] = Inr \<lparr>Rows = 2, Columns = 2, Entries = [[1, 2], [3]]\<rparr>"
  by (simp add: NewMatrix_def)

section \<open>Exponentiate with a power that is not positive\<close>

text \<open>
  C8. For every integer power that is zero or negative, and every matrix,
  \<^verbatim>\<open>Exponentiate(power)\<close> fails with InvalidPowerError, a panic, before any multiplication:
  the result is this error for every receiver, also for one on which \<^verbatim>\<open>Multiply\<close> itself
  would panic with another error.
\<close>

theorem Exponentiate_InvalidPowerError:
  "pwr \<le> 0 \<Longrightarrow> Exponentiate initialMatrix pwr = Inl InvalidPowerError"
  by (simp add: Exponentiate_def)

theorem Exponentiate_InvalidPowerError_witness:
  "Multiply \<lparr>Rows = 1, Columns = 2, Entries = [[1, 2]]\<rparr>
            \<lparr>Rows = 1, Columns = 2, Entries = [[1, 2]]\<rparr> = Inl IncompatibleDimensionsError
   \<and> Exponentiate \<lparr>Rows = 1, Columns = 2, Entries = [[1, 2]]\<rparr> 0 = Inl InvalidPowerError
   \<and> Exponentiate \<lparr>Rows = 1, Columns = 2, Entries = [[1, 2]]\<rparr> (- 1) = Inl InvalidPowerError"
  using Exponentiate_InvalidPowerError [of 0 "\<lparr>Rows = 1, Columns = 2, Entries = [[1, 2]]\<rparr>"]
    Exponentiate_InvalidPowerError [of "- 1" "\<lparr>Rows = 1, Columns = 2, Entries = [[1, 2]]\<rparr>"]
  by (simp add: Multiply_def Multiply_start_def)

section \<open>The loader and tables that are not square\<close>

lemma main_after_parse_never_warns: "Warning \<notin> set (main_after_parse matrixElements)"
  by (auto simp: main_after_parse_def Let_def split: sum.splits)

lemma main_after_parse_not_square:
  assumes "matrixElements = r # rs" and "length r \<noteq> length matrixElements"
  shows "main_after_parse matrixElements = [LogFatal ShapeMismatchError]"
  using assms by (auto simp: main_after_parse_def Let_def NewMatrix_def)

text \<open>
  C9. A parsed rectangular table that is not square gets a warning from the loader, no
  hard error, and is passed on unchanged. The code does not do this: the column count is
  taken from the number of rows, so the warning branch is never entered, and
  \<^verbatim>\<open>NewMatrix\<close> rejects the table, which \<^verbatim>\<open>log.Fatal\<close> turns into the end of the
  process. Here for the table with the two rows 1,2,3 and 4,5,6.
\<close>

theorem main_after_parse_two_by_three:
  "main_after_parse [[1, 2, 3], [4, 5, 6]] = [LogFatal ShapeMismatchError]"
  by (simp add: main_after_parse_def Let_def NewMatrix_def)

end
